theory Spec2Isabelle
  imports Complex_Main "HOL-Library.Multiset" "HOL-Library.Char_ord"
begin

section \<open>Host-language primitives\<close>

text \<open>
  JavaScript numbers are IEEE doubles. A finite double other than the negative zero is
  modelled by the rational number of its decimal form, the digits that JavaScript prints
  for it and reads it back from; \<open>Finite 0\<close> is the positive zero. The negative zero
  and the three non-finite values are constructors of their own. Binary rounding is not
  modelled. Strict equality \<open>===\<close> on numbers makes \<open>NaN\<close> different from itself and the
  two zeros equal.
\<close>

datatype number = Finite rat | NegZero | NaN | PosInf | NegInf

fun numStrictEq :: "number \<Rightarrow> number \<Rightarrow> bool" where
  "numStrictEq NaN _ = False"
| "numStrictEq _ NaN = False"
| "numStrictEq NegZero b = (b = NegZero \<or> b = Finite 0)"
| "numStrictEq a NegZero = (a = Finite 0)"
| "numStrictEq a b = (a = b)"

text \<open>\<open>String(n)\<close> for a non-negative integer: its decimal digits.\<close>

definition digitChar :: "nat \<Rightarrow> char" where
  "digitChar d = char_of (of_char (CHR ''0'') + d)"

fun showNat :: "nat \<Rightarrow> string" where
  "showNat n = (if n < 10 then [digitChar n] else showNat (n div 10) @ [digitChar (n mod 10)])"

declare showNat.simps [simp del]

text \<open>\<open>xs.indexOf(x)\<close>: the first position of \<open>x\<close>, or \<open>-1\<close>.\<close>

fun indexFrom :: "nat \<Rightarrow> 'a list \<Rightarrow> 'a \<Rightarrow> int" where
  "indexFrom i [] x = -1"
| "indexFrom i (y # ys) x = (if y = x then int i else indexFrom (Suc i) ys x)"

definition indexOf :: "'a list \<Rightarrow> 'a \<Rightarrow> int" where
  "indexOf xs x = indexFrom 0 xs x"

text \<open>\<open>new Set(xs)\<close> iterated: the elements of \<open>xs\<close> in order of first occurrence.\<close>

definition newSet :: "'a list \<Rightarrow> 'a list" where
  "newSet xs = rev (remdups (rev xs))"

section \<open>Strings and regular expressions of the host language\<close>

text \<open>
  A string is the list of its code units; only code units below 256 are modelled. The
  character classes are those of JavaScript regular expressions without the \<open>u\<close> flag.
\<close>

definition isDigitChar :: "char \<Rightarrow> bool" where
  "isDigitChar c = (CHR ''0'' \<le> c \<and> c \<le> CHR ''9'')"

definition isWordChar :: "char \<Rightarrow> bool" where
  "isWordChar c = ((CHR ''a'' \<le> c \<and> c \<le> CHR ''z'') \<or> (CHR ''A'' \<le> c \<and> c \<le> CHR ''Z'')
      \<or> isDigitChar c \<or> c = CHR ''_'')"

definition isSpaceChar :: "char \<Rightarrow> bool" where
  "isSpaceChar c = (c = CHR 0x09 \<or> c = CHR 0x0A \<or> c = CHR 0x0B \<or> c = CHR 0x0C
      \<or> c = CHR 0x0D \<or> c = CHR 0x20 \<or> c = CHR 0xA0)"

definition isLineTerminator :: "char \<Rightarrow> bool" where
  "isLineTerminator c = (c = CHR 0x0A \<or> c = CHR 0x0D)"

definition toLowerChar :: "char \<Rightarrow> char" where
  "toLowerChar c =
     (if CHR ''A'' \<le> c \<and> c \<le> CHR ''Z'' then char_of (of_char c + (32::nat)) else c)"

definition toUpperChar :: "char \<Rightarrow> char" where
  "toUpperChar c =
     (if CHR ''a'' \<le> c \<and> c \<le> CHR ''z'' then char_of (of_char c - (32::nat)) else c)"

definition toLowerCase :: "string \<Rightarrow> string" where
  "toLowerCase s = map toLowerChar s"

definition toUpperCase :: "string \<Rightarrow> string" where
  "toUpperCase s = map toUpperChar s"

text \<open>\<open>s.trim()\<close>.\<close>

definition trim :: "string \<Rightarrow> string" where
  "trim s = rev (dropWhile isSpaceChar (rev (dropWhile isSpaceChar s)))"

subsection \<open>A backtracking matcher\<close>

text \<open>
  The regular expressions of the source are written as values of \<open>rx\<close>. A character
  set is a predicate; \<open>Group n\<close> is the \<open>n\<close>-th capturing group; \<open>Bol\<close> and \<open>Eol\<close> are
  \<open>^\<close> and \<open>$\<close>, \<open>BolM\<close> and \<open>EolM\<close> the same under the \<open>m\<close> flag, \<open>WordB\<close> is
  \<open>\b\<close>; \<open>Star\<close> is the greedy and \<open>LazyStar\<close> the lazy iteration.
\<close>

datatype rx =
    Chr "char \<Rightarrow> bool"
  | Eps
  | Seq rx rx
  | Alt rx rx
  | Star rx
  | LazyStar rx
  | Group nat rx
  | Bol | Eol | BolM | EolM | WordB

text \<open>
  A state of the matcher: the input already passed (nearest character first), the input
  still ahead, and the captures made so far (latest first).
\<close>

record mstate =
  seen :: string
  ahead :: string
  caps :: "(nat \<times> string) list"

definition atWordBoundary :: "mstate \<Rightarrow> bool" where
  "atWordBoundary st =
     ((case seen st of [] \<Rightarrow> False | c # _ \<Rightarrow> isWordChar c)
      \<noteq> (case ahead st of [] \<Rightarrow> False | c # _ \<Rightarrow> isWordChar c))"

text \<open>
  \<open>matches r st\<close> lists the states in which a match of \<open>r\<close> begun at \<open>st\<close> can end, in
  the order backtracking tries them: the head of the list is the match JavaScript
  returns. An iteration that consumes nothing is given up, as in ECMAScript.
\<close>

function matches :: "rx \<Rightarrow> mstate \<Rightarrow> mstate list" where
  "matches (Chr p) st =
     (case ahead st of
        [] \<Rightarrow> []
      | c # cs \<Rightarrow> if p c then [st\<lparr>seen := c # seen st, ahead := cs\<rparr>] else [])"
| "matches Eps st = [st]"
| "matches (Seq a b) st = concat (map (matches b) (matches a st))"
| "matches (Alt a b) st = matches a st @ matches b st"
| "matches (Star a) st =
     concat (map (\<lambda>st'. if length (ahead st') < length (ahead st)
                          then matches (Star a) st' else [])
                 (matches a st)) @ [st]"
| "matches (LazyStar a) st =
     st # concat (map (\<lambda>st'. if length (ahead st') < length (ahead st)
                               then matches (LazyStar a) st' else [])
                      (matches a st))"
| "matches (Group n a) st =
     map (\<lambda>st'. st'\<lparr>caps := (n, take (length (ahead st) - length (ahead st')) (ahead st))
                                # caps st'\<rparr>)
         (matches a st)"
| "matches Bol st = (if seen st = [] then [st] else [])"
| "matches Eol st = (if ahead st = [] then [st] else [])"
| "matches BolM st =
     (case seen st of [] \<Rightarrow> [st] | c # _ \<Rightarrow> if isLineTerminator c then [st] else [])"
| "matches EolM st =
     (case ahead st of [] \<Rightarrow> [st] | c # _ \<Rightarrow> if isLineTerminator c then [st] else [])"
| "matches WordB st = (if atWordBoundary st then [st] else [])"
  by pat_completeness auto
termination
  by (relation "measures [\<lambda>(r, st). size r, \<lambda>(r, st). length (ahead st)]") auto

text \<open>
  The equations of the two iterations would rewrite for ever; they are used by name.
\<close>

lemmas matches_step = matches.simps(1-4) matches.simps(7-12)
lemmas matches_Star = matches.simps(5)
lemmas matches_LazyStar = matches.simps(6)

declare matches.simps [simp del]

definition startState :: "string \<Rightarrow> mstate" where
  "startState s = \<lparr>seen = [], ahead = s, caps = []\<rparr>"

definition stepState :: "char \<Rightarrow> string \<Rightarrow> mstate \<Rightarrow> mstate" where
  "stepState c cs st = st\<lparr>seen := c # seen st, ahead := cs\<rparr>"

text \<open>A match: the state where it starts and the state where it ends.\<close>

type_synonym rmatch = "mstate \<times> mstate"

definition matchedText :: "rmatch \<Rightarrow> string" where
  "matchedText m = take (length (ahead (fst m)) - length (ahead (snd m))) (ahead (fst m))"

definition matchGroup :: "rmatch \<Rightarrow> nat \<Rightarrow> string option" where
  "matchGroup m n = map_of (caps (snd m)) n"

text \<open>The leftmost match at or after a state (\<open>RegExp.prototype.exec\<close>).\<close>

function search :: "rx \<Rightarrow> mstate \<Rightarrow> rmatch option" where
  "search r st =
     (case matches r st of
        e # _ \<Rightarrow> Some (st, e)
      | [] \<Rightarrow> (case ahead st of
                 [] \<Rightarrow> None
               | c # cs \<Rightarrow> search r (stepState c cs st)))"
  by pat_completeness auto
termination
  by (relation "measure (\<lambda>(r, st). length (ahead st))") (auto simp: stepState_def)

declare search.simps [simp del]

definition rxExec :: "rx \<Rightarrow> string \<Rightarrow> rmatch option" where
  "rxExec r s = search r (startState s)"

definition rxTest :: "rx \<Rightarrow> string \<Rightarrow> bool" where
  "rxTest r s = (rxExec r s \<noteq> None)"

text \<open>
  \<open>s.replace(r, f)\<close> for a regular expression with the \<open>g\<close> flag: every match, left to
  right, is replaced by what \<open>f\<close> makes of it; after an empty match the scan moves one
  character on.
\<close>

function replaceFrom :: "rx \<Rightarrow> (rmatch \<Rightarrow> string) \<Rightarrow> mstate \<Rightarrow> string" where
  "replaceFrom r f st =
     (case matches r st of
        e # _ \<Rightarrow>
          if length (ahead e) < length (ahead st)
          then f (st, e) @ replaceFrom r f (e\<lparr>caps := []\<rparr>)
          else f (st, e) @ (case ahead st of
                              [] \<Rightarrow> []
                            | c # cs \<Rightarrow> c # replaceFrom r f (stepState c cs st))
      | [] \<Rightarrow> (case ahead st of
                 [] \<Rightarrow> []
               | c # cs \<Rightarrow> c # replaceFrom r f (stepState c cs st)))"
  by pat_completeness auto
termination
  by (relation "measure (\<lambda>(r, f, st). length (ahead st))") (auto simp: stepState_def)

declare replaceFrom.simps [simp del]

definition replaceAll :: "rx \<Rightarrow> (rmatch \<Rightarrow> string) \<Rightarrow> string \<Rightarrow> string" where
  "replaceAll r f s = replaceFrom r f (startState s)"

text \<open>\<open>s.replace(r, f)\<close> without the \<open>g\<close> flag: the leftmost match only.\<close>

definition replaceFirst :: "rx \<Rightarrow> (rmatch \<Rightarrow> string) \<Rightarrow> string \<Rightarrow> string" where
  "replaceFirst r f s =
     (case rxExec r s of
        None \<Rightarrow> s
      | Some m \<Rightarrow> rev (seen (fst m)) @ f m @ ahead (snd m))"

subsection \<open>Notation for writing the source's expressions\<close>

fun lit :: "string \<Rightarrow> rx" where
  "lit [] = Eps"
| "lit [c] = Chr (\<lambda>x. x = c)"
| "lit (c # cs) = Seq (Chr (\<lambda>x. x = c)) (lit cs)"

text \<open>A literal under the \<open>i\<close> flag.\<close>

fun litI :: "string \<Rightarrow> rx" where
  "litI [] = Eps"
| "litI [c] = Chr (\<lambda>x. toLowerChar x = toLowerChar c)"
| "litI (c # cs) = Seq (Chr (\<lambda>x. toLowerChar x = toLowerChar c)) (litI cs)"

fun seqs :: "rx list \<Rightarrow> rx" where
  "seqs [] = Eps"
| "seqs [r] = r"
| "seqs (r # rs) = Seq r (seqs rs)"

fun alts :: "rx list \<Rightarrow> rx" where
  "alts [] = Eps"
| "alts [r] = r"
| "alts (r # rs) = Alt r (alts rs)"

definition Plus :: "rx \<Rightarrow> rx" where
  "Plus r = Seq r (Star r)"

definition Opt :: "rx \<Rightarrow> rx" where
  "Opt r = Alt r Eps"

definition oneOf :: "string \<Rightarrow> rx" where
  "oneOf cs = Chr (\<lambda>x. x \<in> set cs)"

definition noneOf :: "string \<Rightarrow> rx" where
  "noneOf cs = Chr (\<lambda>x. x \<notin> set cs)"

definition spaceC :: rx where "spaceC = Chr isSpaceChar"
definition wordC :: rx where "wordC = Chr isWordChar"
definition digitC :: rx where "digitC = Chr isDigitChar"
definition anyC :: rx where "anyC = Chr (\<lambda>_. True)"
definition dotC :: rx where "dotC = Chr (\<lambda>c. \<not> isLineTerminator c)"

text \<open>\<open>\s+\<close> and \<open>\s*\<close>\<close>

definition sp1 :: rx where "sp1 = Plus spaceC"
definition sp0 :: rx where "sp0 = Star spaceC"

text \<open>A group that took no part in the match reads as the empty string (\<open>m[n] || ''\<close>).\<close>

definition groupOr :: "rmatch \<Rightarrow> nat \<Rightarrow> string" where
  "groupOr m n = (case matchGroup m n of Some g \<Rightarrow> g | None \<Rightarrow> [])"

section \<open>JSON differ (src/lib/json-diff.ts)\<close>

subsection \<open>Types (src/types/json-diff.ts)\<close>

text \<open>
  A \<open>JsonObject\<close> is the list of its own properties in the order \<open>Object.keys\<close>
  enumerates them. Properties inherited from \<open>Object.prototype\<close> are not modelled: the
  keys of the compared objects are taken not to be names such as \<open>constructor\<close>.
\<close>

datatype JsonValue =
    JString string
  | JNumber number
  | JBoolean bool
  | JNull
  | JArray "JsonValue list"
  | JObject "(string \<times> JsonValue) list"

datatype DiffMode = strict | loose

datatype DiffType = added | removed | modified | unchanged | order_changed

record DiffItem =
  path :: string
  type :: DiffType
  oldValue :: "JsonValue option"
  newValue :: "JsonValue option"
  oldIndex :: "int option"
  newIndex :: "int option"

record DiffResult =
  isEqualResult :: bool
  diffs :: "DiffItem list"

subsection \<open>getValueType and isEqual\<close>

fun getValueType :: "JsonValue \<Rightarrow> string" where
  "getValueType JNull = ''null''"
| "getValueType (JArray _) = ''array''"
| "getValueType (JObject _) = ''object''"
| "getValueType (JString _) = ''string''"
| "getValueType (JNumber _) = ''number''"
| "getValueType (JBoolean _) = ''boolean''"

text \<open>
  \<open>Object.keys(v)\<close> paired with \<open>v[key]\<close> for a value whose \<open>typeof\<close> is
  \<open>object\<close>: an array enumerates its indices as decimal strings.
\<close>

fun ownProps :: "JsonValue \<Rightarrow> (string \<times> JsonValue) list" where
  "ownProps (JObject kvs) = kvs"
| "ownProps (JArray xs) = zip (map showNat [0..<length xs]) xs"
| "ownProps _ = []"

fun isObjectTyped :: "JsonValue \<Rightarrow> bool" where
  "isObjectTyped (JObject _) = True"
| "isObjectTyped (JArray _) = True"
| "isObjectTyped _ = False"

text \<open>\<open>a === b\<close> on two values that are not both containers.\<close>

fun strictEq :: "JsonValue \<Rightarrow> JsonValue \<Rightarrow> bool" where
  "strictEq (JString a) (JString b) = (a = b)"
| "strictEq (JNumber a) (JNumber b) = numStrictEq a b"
| "strictEq (JBoolean a) (JBoolean b) = (a = b)"
| "strictEq JNull JNull = True"
| "strictEq _ _ = False"

lemma size_ownProps:
  "(k, v) \<in> set (ownProps a) \<Longrightarrow> size v < size a"
proof (cases a)
  case (JArray xs)
  assume "(k, v) \<in> set (ownProps a)"
  with JArray have "v \<in> set xs" by (auto dest: set_zip_rightD)
  then have "size v \<le> size_list size xs" by (simp add: size_list_estimation')
  with JArray show ?thesis by simp
next
  case (JObject kvs)
  assume "(k, v) \<in> set (ownProps a)"
  with JObject have "(k, v) \<in> set kvs" by simp
  then have "size_prod (\<lambda>_. 0) size (k, v) \<le> size_list (size_prod (\<lambda>_. 0) size) kvs"
    by (rule size_list_estimation') simp
  with JObject show ?thesis by simp
qed auto

function isEqual :: "JsonValue \<Rightarrow> JsonValue \<Rightarrow> bool" where
  "isEqual a b =
    (if a = JNull \<and> b = JNull then True
     else if a = JNull \<or> b = JNull then False
     else if isObjectTyped a \<and> isObjectTyped b then
       (let keysA = ownProps a; keysB = ownProps b in
        if length keysA \<noteq> length keysB then False
        else list_all (\<lambda>(key, va). case map_of keysB key of
                                      None \<Rightarrow> False
                                    | Some vb \<Rightarrow> isEqual va vb) keysA)
     else strictEq a b)"
  by pat_completeness auto
termination
  by (relation "measure (\<lambda>(a, b). size a)") (auto dest: size_ownProps)

declare isEqual.simps [simp del]

subsection \<open>checkKeyOrder\<close>

definition joinPath :: "string \<Rightarrow> string \<Rightarrow> string" where
  "joinPath basePath key = (if basePath \<noteq> [] then basePath @ ''.'' @ key else key)"

definition rootPath :: "string \<Rightarrow> string" where
  "rootPath p = (if p \<noteq> [] then p else ''(root)'')"

definition checkKeyOrder ::
  "string list \<Rightarrow> string list \<Rightarrow> string \<Rightarrow> DiffItem list \<Rightarrow> DiffItem list" where
  "checkKeyOrder oldKeys newKeys basePath diffs0 =
    (let commonKeys = filter (\<lambda>key. key \<in> set newKeys) oldKeys;
         oldCommonOrder = sort_key (\<lambda>k. indexOf oldKeys k) commonKeys;
         newCommonOrder = sort_key (\<lambda>k. indexOf newKeys k) commonKeys
     in fold (\<lambda>i ds.
          if oldCommonOrder ! i \<noteq> newCommonOrder ! i then
            (let key = oldCommonOrder ! i;
                 newPosition = indexOf newCommonOrder key
             in if int i \<noteq> newPosition then
                  (let currentPath = joinPath basePath key;
                       alreadyAdded = list_ex (\<lambda>d. path d = currentPath \<and> type d = order_changed) ds
                   in if \<not> alreadyAdded then
                        ds @ [\<lparr>path = currentPath, type = order_changed,
                               oldValue = None, newValue = None,
                               oldIndex = Some (int i), newIndex = Some newPosition\<rparr>]
                      else ds)
                else ds)
          else ds) [0..<length oldCommonOrder] diffs0)"

subsection \<open>compareValues, compareObjects, compareArrays\<close>

definition modifiedItem :: "string \<Rightarrow> JsonValue \<Rightarrow> JsonValue \<Rightarrow> DiffItem" where
  "modifiedItem p oldVal newVal =
     \<lparr>path = rootPath p, type = modified, oldValue = Some oldVal, newValue = Some newVal,
      oldIndex = None, newIndex = None\<rparr>"

definition removedItem :: "string \<Rightarrow> JsonValue \<Rightarrow> DiffItem" where
  "removedItem p oldVal =
     \<lparr>path = p, type = removed, oldValue = Some oldVal, newValue = None,
      oldIndex = None, newIndex = None\<rparr>"

definition addedItem :: "string \<Rightarrow> JsonValue \<Rightarrow> DiffItem" where
  "addedItem p newVal =
     \<lparr>path = p, type = added, oldValue = None, newValue = Some newVal,
      oldIndex = None, newIndex = None\<rparr>"

lemma size_map_of:
  "map_of kvs k = Some v \<Longrightarrow> size v < size (JObject kvs)"
  using size_ownProps [of k v "JObject kvs"] by (auto dest: map_of_SomeD)

lemma size_nth:
  "i < length xs \<Longrightarrow> size (xs ! i) < size (JArray xs)"
proof -
  assume "i < length xs"
  then have "xs ! i \<in> set xs" by simp
  then have "size (xs ! i) \<le> size_list size xs" by (simp add: size_list_estimation')
  then show ?thesis by simp
qed

function compareValues ::
    "JsonValue \<Rightarrow> JsonValue \<Rightarrow> string \<Rightarrow> DiffMode \<Rightarrow> DiffItem list \<Rightarrow> DiffItem list"
  and compareObjects ::
    "(string \<times> JsonValue) list \<Rightarrow> (string \<times> JsonValue) list \<Rightarrow> string \<Rightarrow> DiffMode
       \<Rightarrow> DiffItem list \<Rightarrow> DiffItem list"
  and compareArrays ::
    "JsonValue list \<Rightarrow> JsonValue list \<Rightarrow> string \<Rightarrow> DiffMode \<Rightarrow> DiffItem list \<Rightarrow> DiffItem list"
where
  "compareValues oldVal newVal p mode ds0 =
    (if getValueType oldVal \<noteq> getValueType newVal then
       ds0 @ [modifiedItem p oldVal newVal]
     else (case oldVal of
           JObject oldObj \<Rightarrow>
             (case newVal of
                JObject newObj \<Rightarrow> compareObjects oldObj newObj p mode ds0
              | _ \<Rightarrow> ds0)
         | JArray oldArr \<Rightarrow>
             (case newVal of
                JArray newArr \<Rightarrow> compareArrays oldArr newArr p mode ds0
              | _ \<Rightarrow> ds0)
         | _ \<Rightarrow>
             if \<not> isEqual oldVal newVal then ds0 @ [modifiedItem p oldVal newVal]
             else ds0))"
| "compareObjects oldObj newObj basePath mode ds0 =
    (let oldKeys = map fst oldObj;
         newKeys = map fst newObj;
         allKeys = newSet (oldKeys @ newKeys);
         ds1 = (if mode = strict then checkKeyOrder oldKeys newKeys basePath ds0 else ds0)
     in fold (\<lambda>key ds.
          let currentPath = joinPath basePath key
          in case map_of oldObj key of
               Some ov \<Rightarrow>
                 (case map_of newObj key of
                    None \<Rightarrow> ds @ [removedItem currentPath ov]
                  | Some nv \<Rightarrow> compareValues ov nv currentPath mode ds)
             | None \<Rightarrow>
                 (case map_of newObj key of
                    Some nv \<Rightarrow> ds @ [addedItem currentPath nv]
                  | None \<Rightarrow> ds)) allKeys ds1)"
| "compareArrays oldArr newArr basePath mode ds0 =
    (let maxLength = max (length oldArr) (length newArr)
     in fold (\<lambda>i ds.
          let currentPath = basePath @ ''['' @ showNat i @ '']'';
              hasOld = i < length oldArr;
              hasNew = i < length newArr
          in if hasOld \<and> \<not> hasNew then ds @ [removedItem currentPath (oldArr ! i)]
             else if \<not> hasOld \<and> hasNew then ds @ [addedItem currentPath (newArr ! i)]
             else if hasOld \<and> hasNew then compareValues (oldArr ! i) (newArr ! i) currentPath mode ds
             else ds) [0..<maxLength] ds0)"
  by pat_completeness auto
termination
  by (relation "measure (\<lambda>x. case x of
         Inl (a, b, _) \<Rightarrow> 2 * size a + 1
       | Inr (Inl (a, b, _)) \<Rightarrow> 2 * size (JObject a)
       | Inr (Inr (a, b, _)) \<Rightarrow> 2 * size (JArray a))")
     (auto dest: size_map_of size_nth)

declare compareValues.simps [simp del] compareObjects.simps [simp del]
  compareArrays.simps [simp del]

definition compareJson :: "JsonValue \<Rightarrow> JsonValue \<Rightarrow> DiffMode \<Rightarrow> DiffResult" where
  "compareJson oldJson newJson mode =
    (let ds = compareValues oldJson newJson [] mode []
     in \<lparr>isEqualResult = (length ds = 0), diffs = ds\<rparr>)"

subsection \<open>Predicates used in the statements\<close>

text \<open>
  A JSON text has no literal for \<open>NaN\<close>, so a value obtained from one never holds it;
  \<open>nanFree\<close> says so of a value of the TypeScript type \<open>JsonValue\<close>.
\<close>

fun nanFree :: "JsonValue \<Rightarrow> bool" where
  "nanFree (JNumber n) = (n \<noteq> NaN)"
| "nanFree (JArray xs) = list_all nanFree xs"
| "nanFree (JObject kvs) = list_all (\<lambda>kv. nanFree (snd kv)) kvs"
| "nanFree _ = True"

definition noUnchanged :: "DiffItem list \<Rightarrow> bool" where
  "noUnchanged ds = list_all (\<lambda>d. type d \<noteq> unchanged) ds"


text \<open>The two objects of the order-sensitivity example, and a nested sample document.\<close>

definition objXY :: JsonValue where
  "objXY = JObject [(''x'', JNumber (Finite 1)), (''y'', JNumber (Finite 2))]"

definition objYX :: JsonValue where
  "objYX = JObject [(''y'', JNumber (Finite 2)), (''x'', JNumber (Finite 1))]"

definition sampleDoc :: JsonValue where
  "sampleDoc = JObject [(''name'', JString ''n''),
                        (''tags'', JArray [JNumber (Finite 1), JNull, JBoolean True]),
                        (''sub'', JObject [(''k'', JNumber PosInf)])]"

section \<open>PHP array parser (src/lib/php-parser.ts)\<close>

subsection \<open>Values and tokens\<close>

abbreviation (input) bslash :: char where "bslash \<equiv> CHR 0x5C"
abbreviation (input) squote :: char where "squote \<equiv> CHR 0x27"
abbreviation (input) dquote :: char where "dquote \<equiv> CHR 0x22"
abbreviation (input) newline :: char where "newline \<equiv> CHR 0x0A"
abbreviation (input) creturn :: char where "creturn \<equiv> CHR 0x0D"
abbreviation (input) tabchar :: char where "tabchar \<equiv> CHR 0x09"

text \<open>
  A \<open>PHPObject\<close> is the list of its own properties in the order JavaScript enumerates
  them: the keys that are array indices first, in ascending numeric order, then the other
  keys in the order of their creation.
\<close>

datatype PHPValue =
    PString string
  | PNumber number
  | PBoolean bool
  | PNull
  | PArray "PHPValue list"
  | PObject "(string \<times> PHPValue) list"

datatype Token =
    STRING string char
  | NUMBER number
  | LITERAL string
  | ARRAY
  | ARROW
  | LBRACKET
  | RBRACKET
  | LPAREN
  | RPAREN
  | COMMA
  | IDENTIFIER string

datatype parse_error =
    UnexpectedEnd
  | Unparsable Token
  | NoProgress

subsection \<open>Numbers and property keys of the host\<close>

definition digitVal :: "char \<Rightarrow> nat" where
  "digitVal c = of_char c - of_char (CHR ''0'')"

definition natOfDigits :: "string \<Rightarrow> nat" where
  "natOfDigits ds = foldl (\<lambda>n c. 10 * n + digitVal c) 0 ds"

text \<open>
  \<open>parseFloat\<close> on an optional minus sign followed by digits and dots: the longest
  prefix that is a decimal literal, as the exact rational; a literal of the value zero
  after a minus sign is the negative zero.
\<close>

definition parseFloat :: "string \<Rightarrow> number" where
  "parseFloat s =
    (let neg = (case s of c # _ \<Rightarrow> c = CHR ''-'' | [] \<Rightarrow> False);
         s1 = (if neg then tl s else s);
         ip = takeWhile isDigitChar s1;
         r1 = dropWhile isDigitChar s1;
         fp = (case r1 of c # t \<Rightarrow> if c = CHR ''.'' then takeWhile isDigitChar t else [] | [] \<Rightarrow> []);
         mag = (of_nat (natOfDigits ip) + of_nat (natOfDigits fp) / 10 ^ length fp :: rat)
     in if ip = [] \<and> fp = [] then NaN
        else if neg \<and> mag = 0 then NegZero
        else Finite (if neg then - mag else mag))"

text \<open>
  \<open>Number.prototype.toString\<close>. JavaScript prints a number that is zero or of a
  magnitude from \<open>10^-6\<close> up to, but not including, \<open>10^21\<close> by the digits of its
  decimal form, without an exponent, and such a form has at most twenty-two fractional
  digits. The model prints every finite number by its decimal expansion, cut after
  twenty-two fractional digits; the form with an exponent, which JavaScript uses for
  the other magnitudes, is not modelled. Both zeros print as \<open>0\<close>.
\<close>

fun fracDigits :: "nat \<Rightarrow> rat \<Rightarrow> string" where
  "fracDigits 0 f = []"
| "fracDigits (Suc n) f =
     (if f = 0 then []
      else digitChar (nat \<lfloor>f * 10\<rfloor>) # fracDigits n (f * 10 - of_int \<lfloor>f * 10\<rfloor>))"

fun numberToString :: "number \<Rightarrow> string" where
  "numberToString NaN = ''NaN''"
| "numberToString PosInf = ''Infinity''"
| "numberToString NegInf = ''-Infinity''"
| "numberToString NegZero = ''0''"
| "numberToString (Finite r) =
     (let ip = nat \<lfloor>\<bar>r\<bar>\<rfloor>; f = \<bar>r\<bar> - of_int \<lfloor>\<bar>r\<bar>\<rfloor>
      in (if r < 0 then ''-'' else '''') @ showNat ip
         @ (if f = 0 then '''' else ''.'' @ fracDigits 22 f))"

text \<open>\<open>xs.join(sep)\<close>.\<close>

fun joinWith :: "string \<Rightarrow> string list \<Rightarrow> string" where
  "joinWith sep [] = []"
| "joinWith sep [x] = x"
| "joinWith sep (x # xs) = x @ sep @ joinWith sep xs"

text \<open>\<open>String(v)\<close> for a parsed value; an array joins its elements, \<open>null\<close> as the
  empty string.\<close>

fun jsString :: "PHPValue \<Rightarrow> string" where
  "jsString (PString s) = s"
| "jsString (PNumber n) = numberToString n"
| "jsString (PBoolean b) = (if b then ''true'' else ''false'')"
| "jsString PNull = ''null''"
| "jsString (PArray xs) =
     joinWith '','' (map (\<lambda>x. if x = PNull then [] else jsString x) xs)"
| "jsString (PObject _) = ''[object Object]''"

text \<open>
  An array index: the canonical decimal string of an integer below \<open>2^32 - 1\<close>. Such
  keys are enumerated first and in numeric order.
\<close>

definition isArrayIndex :: "string \<Rightarrow> bool" where
  "isArrayIndex k = (k \<noteq> [] \<and> list_all isDigitChar k \<and> (k = ''0'' \<or> hd k \<noteq> CHR ''0'')
      \<and> int (natOfDigits k) < 4294967295)"

fun insertIndexKey :: "string \<Rightarrow> 'v \<Rightarrow> (string \<times> 'v) list \<Rightarrow> (string \<times> 'v) list" where
  "insertIndexKey k v [] = [(k, v)]"
| "insertIndexKey k v ((k', v') # kvs) =
     (if isArrayIndex k' \<and> natOfDigits k' < natOfDigits k
      then (k', v') # insertIndexKey k v kvs
      else (k, v) # (k', v') # kvs)"

text \<open>
  \<open>obj[k] = v\<close> on an object created by \<open>{}\<close>. The key \<open>__proto__\<close> is an accessor
  of \<open>Object.prototype\<close>: assigning to it sets the prototype of \<open>obj\<close> when \<open>v\<close> is an
  object or \<open>null\<close>, does nothing otherwise, and creates no property in either case. The
  other properties of \<open>Object.prototype\<close> are writable data properties, so assigning to
  their names creates a property of \<open>obj\<close> as for any other key. The list holds the
  properties of \<open>obj\<close> itself; what \<open>obj\<close> inherits is not modelled.
\<close>

definition objSet :: "(string \<times> 'v) list \<Rightarrow> string \<Rightarrow> 'v \<Rightarrow> (string \<times> 'v) list" where
  "objSet obj k v =
     (if k = ''__proto__'' then obj
      else if k \<in> set (map fst obj) then map (\<lambda>(k', v'). if k' = k then (k', v) else (k', v')) obj
      else if isArrayIndex k then insertIndexKey k v obj
      else obj @ [(k, v)])"

subsection \<open>unescapeString\<close>

definition unescapeString :: "string \<Rightarrow> string" where
  "unescapeString str =
    (let s = replaceAll (lit [bslash, CHR ''n'']) (\<lambda>_. [newline]) str;
         s = replaceAll (lit [bslash, CHR ''r'']) (\<lambda>_. [creturn]) s;
         s = replaceAll (lit [bslash, CHR ''t'']) (\<lambda>_. [tabchar]) s;
         s = replaceAll (lit [bslash, squote]) (\<lambda>_. [squote]) s;
         s = replaceAll (lit [bslash, dquote]) (\<lambda>_. [dquote]) s;
         s = replaceAll (lit [bslash, bslash]) (\<lambda>_. [bslash]) s
     in s)"

subsection \<open>tokenize\<close>

text \<open>
  The scan of a string literal after its opening quote: the raw value, and the input from
  the closing quote on (empty when the literal is not closed).
\<close>

fun scanString :: "char \<Rightarrow> string \<Rightarrow> string \<times> string" where
  "scanString quote [] = ([], [])"
| "scanString quote [c] = (if c = quote then ([], [c]) else ([c], []))"
| "scanString quote (c # d # cs) =
     (if c = quote then ([], c # d # cs)
      else if c = bslash then (let (v, r) = scanString quote cs in (c # d # v, r))
      else (let (v, r) = scanString quote (d # cs) in (c # v, r)))"

lemma scanString_length: "length (snd (scanString q s)) \<le> length s"
  by (induction q s rule: scanString.induct) (auto split: prod.splits)

definition isNumberChar :: "char \<Rightarrow> bool" where
  "isNumberChar c = (isDigitChar c \<or> c = CHR ''.'')"

definition isIdentStart :: "char \<Rightarrow> bool" where
  "isIdentStart c = ((CHR ''a'' \<le> c \<and> c \<le> CHR ''z'') \<or> (CHR ''A'' \<le> c \<and> c \<le> CHR ''Z'')
      \<or> c = CHR ''_'')"

definition singleCharTokens :: "char \<Rightarrow> Token option" where
  "singleCharTokens c =
     (if c = CHR ''['' then Some LBRACKET
      else if c = CHR '']'' then Some RBRACKET
      else if c = CHR ''('' then Some LPAREN
      else if c = CHR '')'' then Some RPAREN
      else if c = CHR '','' then Some COMMA
      else None)"

definition identifierToken :: "string \<Rightarrow> Token" where
  "identifierToken v =
     (if v = ''array'' then ARRAY
      else if toLowerCase v \<in> set [''true'', ''false'', ''null''] then LITERAL (toLowerCase v)
      else IDENTIFIER v)"

text \<open>The scanner works on the input from the current position \<open>i\<close> on.\<close>

function tokenize :: "string \<Rightarrow> Token list" where
  "tokenize [] = []"
| "tokenize (c # cs) =
    (if isSpaceChar c then tokenize cs
     else if c = dquote \<or> c = squote then
       STRING (unescapeString (fst (scanString c cs))) c
         # tokenize (drop 1 (snd (scanString c cs)))
     else if isDigitChar c \<or> (c = CHR ''-'' \<and> (case cs of d # _ \<Rightarrow> isDigitChar d | [] \<Rightarrow> False)) then
       (let sign = (if c = CHR ''-'' then [c] else []);
            s1 = (if c = CHR ''-'' then cs else c # cs)
        in NUMBER (parseFloat (sign @ takeWhile isNumberChar s1))
             # tokenize (dropWhile isNumberChar s1))
     else if isIdentStart c then
       identifierToken (c # takeWhile isWordChar cs) # tokenize (dropWhile isWordChar cs)
     else if c = CHR ''='' \<and> (case cs of d # _ \<Rightarrow> d = CHR ''>'' | [] \<Rightarrow> False) then
       ARROW # tokenize (drop 1 cs)
     else (case singleCharTokens c of
             Some t \<Rightarrow> t # tokenize cs
           | None \<Rightarrow> tokenize cs))"
  by pat_completeness auto
termination
proof (relation "measure length")
  fix c cs
  show "(drop 1 (snd (scanString c cs)), c # cs) \<in> measure length"
    using scanString_length [of c cs] by simp
next
  fix c cs x xa
  assume "xa = (if c = CHR ''-'' then cs else c # cs)"
    and "isDigitChar c \<or> c = CHR ''-'' \<and> (case cs of [] \<Rightarrow> False | d # _ \<Rightarrow> isDigitChar d)"
  then show "(dropWhile isNumberChar xa, c # cs) \<in> measure length"
    using length_dropWhile_le [of isNumberChar cs]
    by (cases "c = CHR ''-''") (auto simp: isNumberChar_def le_imp_less_Suc)
next
  fix c cs
  show "(dropWhile isWordChar cs, c # cs) \<in> measure length"
    using length_dropWhile_le [of isWordChar cs] by (simp add: le_imp_less_Suc)
qed auto

declare tokenize.simps [simp del]

subsection \<open>parseTokens\<close>

definition tokenAt :: "Token list \<Rightarrow> nat \<Rightarrow> Token option" where
  "tokenAt tokens pos = (if pos < length tokens then Some (tokens ! pos) else None)"

definition isOpener :: "Token list \<Rightarrow> nat \<Rightarrow> bool" where
  "isOpener tokens pos = (tokenAt tokens pos = Some ARRAY \<or> tokenAt tokens pos = Some LBRACKET)"

definition isCloser :: "Token list \<Rightarrow> nat \<Rightarrow> bool" where
  "isCloser tokens pos = (tokenAt tokens pos = Some RBRACKET \<or> tokenAt tokens pos = Some RPAREN)"

text \<open>\<open>typeof keyValue === 'number' ? keyValue : String(keyValue)\<close>, as a property key.\<close>

definition keyOf :: "PHPValue \<Rightarrow> string" where
  "keyOf keyValue = jsString keyValue"

text \<open>
  The end of \<open>parseArray\<close>: the closing bracket is skipped; an array all of whose
  elements came without a key is returned as a list of its \<open>index\<close> elements.
\<close>

definition finishArray ::
  "Token list \<Rightarrow> nat \<Rightarrow> (string \<times> PHPValue) list \<Rightarrow> bool \<Rightarrow> nat \<Rightarrow> PHPValue \<times> nat" where
  "finishArray tokens pos result isIndexedArray index =
    (let pos' = (if isCloser tokens pos then pos + 1 else pos)
     in if isIndexedArray
        then (PArray (map (\<lambda>i. case map_of result (showNat i) of Some v \<Rightarrow> v | None \<Rightarrow> PNull)
                          [0..<index]), pos')
        else (PObject result, pos'))"

text \<open>
  \<open>parseValue\<close> and \<open>parseArray\<close> share the cursor \<open>pos\<close>: each takes it and returns
  it with the value. \<open>parseElements\<close> is the loop of \<open>parseArray\<close> with its variables
  \<open>result\<close>, \<open>isIndexedArray\<close> and \<open>index\<close>. Every value parsed moves the cursor
  forward; the loop checks it (\<open>NoProgress\<close>), which is what makes the recursion
  well-founded, and the check never fails (lemma \<open>parse_progress\<close> below).
\<close>

function parseValue :: "Token list \<Rightarrow> nat \<Rightarrow> parse_error + (PHPValue \<times> nat)"
  and parseArray :: "Token list \<Rightarrow> nat \<Rightarrow> parse_error + (PHPValue \<times> nat)"
  and parseElements ::
    "Token list \<Rightarrow> nat \<Rightarrow> (string \<times> PHPValue) list \<Rightarrow> bool \<Rightarrow> nat
       \<Rightarrow> parse_error + (PHPValue \<times> nat)"
where
  "parseValue tokens pos =
    (case tokenAt tokens pos of
       None \<Rightarrow> Inl UnexpectedEnd
     | Some token \<Rightarrow>
        (case token of
           STRING s q \<Rightarrow> Inr (PString s, pos + 1)
         | NUMBER n \<Rightarrow> Inr (PNumber n, pos + 1)
         | LITERAL val \<Rightarrow>
             Inr (if val = ''true'' then PBoolean True
                  else if val = ''false'' then PBoolean False
                  else PNull, pos + 1)
         | LBRACKET \<Rightarrow> parseArray tokens pos
         | ARRAY \<Rightarrow> parseArray tokens pos
         | _ \<Rightarrow> Inl (Unparsable token)))"
| "parseArray tokens pos =
    (let pos1 =
       (if tokenAt tokens pos = Some ARRAY
        then (if tokenAt tokens (pos + 1) = Some LPAREN then pos + 2 else pos + 1)
        else if tokenAt tokens pos = Some LBRACKET then pos + 1
        else pos)
     in parseElements tokens pos1 [] True 0)"
| "parseElements tokens pos result isIndexedArray index =
    (if pos < length tokens \<and> \<not> isCloser tokens pos then
       (if pos + 1 < length tokens \<and> tokenAt tokens (pos + 1) = Some ARROW then
          (case parseValue tokens pos of
             Inl e \<Rightarrow> Inl e
           | Inr (keyValue, posk) \<Rightarrow>
               if posk < pos then Inl NoProgress
               else
                (case parseValue tokens (posk + 1) of
                   Inl e \<Rightarrow> Inl e
                 | Inr (v, posv) \<Rightarrow>
                     if posv \<le> pos then Inl NoProgress
                     else parseElements tokens
                            (if tokenAt tokens posv = Some COMMA then posv + 1 else posv)
                            (objSet result (keyOf keyValue) v) False index))
        else
          (case parseValue tokens pos of
             Inl e \<Rightarrow> Inl e
           | Inr (v, posv) \<Rightarrow>
               if posv \<le> pos then Inl NoProgress
               else parseElements tokens
                      (if tokenAt tokens posv = Some COMMA then posv + 1 else posv)
                      (objSet result (showNat index) v) isIndexedArray
                      (if isIndexedArray then index + 1 else index)))
     else Inr (finishArray tokens pos result isIndexedArray index))"
  by pat_completeness auto
termination
  by (relation "measure (\<lambda>x. case x of
         Inl (tokens, pos) \<Rightarrow> 3 * (length tokens - pos) + 2
       | Inr (Inl (tokens, pos)) \<Rightarrow>
           (if isOpener tokens pos then 3 * (length tokens - pos) + 1
            else 3 * (length tokens - pos) + 4)
       | Inr (Inr (tokens, pos, _)) \<Rightarrow> 3 * (length tokens - pos) + 3)")
     (auto simp: isOpener_def tokenAt_def split: if_splits)

declare parseValue.simps [simp del] parseArray.simps [simp del] parseElements.simps [simp del]

definition parseTokens :: "Token list \<Rightarrow> parse_error + PHPValue" where
  "parseTokens tokens =
     (case parseValue tokens 0 of Inl e \<Rightarrow> Inl e | Inr (v, _) \<Rightarrow> Inr v)"

definition smartParsePHPArray :: "string \<Rightarrow> parse_error + PHPValue" where
  "smartParsePHPArray phpString = parseTokens (tokenize phpString)"

subsection \<open>The degraded parser (simpleParsePHPArray)\<close>

text \<open>
  The state of the quote-aware scanners: \<open>result\<close> so far, whether the scan is inside a
  string and which quote opened it, and whether the last character was a backslash.
\<close>

record scan_state =
  sc_result :: string
  sc_inString :: bool
  sc_stringChar :: char
  sc_escaped :: bool

definition balanceStep :: "char \<Rightarrow> scan_state \<Rightarrow> scan_state" where
  "balanceStep c st =
    (if sc_escaped st then st\<lparr>sc_result := sc_result st @ [c], sc_escaped := False\<rparr>
     else if c = bslash then st\<lparr>sc_result := sc_result st @ [c], sc_escaped := True\<rparr>
     else if \<not> sc_inString st \<and> (c = dquote \<or> c = squote) then
       st\<lparr>sc_inString := True, sc_stringChar := c, sc_result := sc_result st @ [c]\<rparr>
     else if sc_inString st \<and> c = sc_stringChar st then
       st\<lparr>sc_inString := False, sc_stringChar := CHR 0x00, sc_result := sc_result st @ [c]\<rparr>
     else if sc_inString st then st\<lparr>sc_result := sc_result st @ [c]\<rparr>
     else if c = CHR ''('' then st\<lparr>sc_result := sc_result st @ ''[''\<rparr>
     else if c = CHR '')'' then st\<lparr>sc_result := sc_result st @ '']''\<rparr>
     else st\<lparr>sc_result := sc_result st @ [c]\<rparr>)"

definition balanceParentheses :: "string \<Rightarrow> string" where
  "balanceParentheses str =
     sc_result (fold balanceStep str
       \<lparr>sc_result = [], sc_inString = False, sc_stringChar = CHR 0x00, sc_escaped = False\<rparr>)"

text \<open>
  \<open>/\barray\s*\(/g\<close>, replaced until nothing changes. Every round that changes the
  text shortens it, so the length of the text bounds the number of rounds.
\<close>

definition rxArrayOpen :: rx where
  "rxArrayOpen = seqs [WordB, lit ''array'', sp0, lit ''('']"

fun replaceArrayRounds :: "nat \<Rightarrow> string \<Rightarrow> string" where
  "replaceArrayRounds 0 result = result"
| "replaceArrayRounds (Suc n) result =
     (let after = replaceAll rxArrayOpen (\<lambda>_. ''['') result
      in if after \<noteq> result then replaceArrayRounds n after else after)"

definition replaceArraySyntax :: "string \<Rightarrow> string" where
  "replaceArraySyntax str = balanceParentheses (replaceArrayRounds (Suc (length str)) str)"

text \<open>
  \<open>/((?:'[^'\\]*(?:\\.[^'\\]*)*'|"[^"\\]*(?:\\.[^"\\]*)*"|\w+|\d+))\s*=>\s*/g\<close>
\<close>

definition rxQuoted :: "char \<Rightarrow> rx" where
  "rxQuoted q =
     seqs [lit [q], Star (noneOf [q, bslash]),
           Star (seqs [lit [bslash], dotC, Star (noneOf [q, bslash])]), lit [q]]"

definition rxArrow :: rx where
  "rxArrow =
     seqs [Group 1 (alts [rxQuoted squote, rxQuoted dquote, Plus wordC, Plus digitC]),
           sp0, lit ''=>'', sp0]"

text \<open>\<open>/^\d+$/\<close> and \<open>/^['"]/\<close>\<close>

definition rxAllDigits :: rx where
  "rxAllDigits = seqs [Bol, Plus digitC, Eol]"

definition rxStartsQuoted :: rx where
  "rxStartsQuoted = Seq Bol (oneOf [squote, dquote])"

definition replaceArrowSyntax :: "string \<Rightarrow> string" where
  "replaceArrowSyntax str =
     replaceAll rxArrow
       (\<lambda>m. let key = groupOr m 1 in
            if rxTest rxAllDigits key then key @ '': ''
            else if rxTest rxStartsQuoted key then key @ '': ''
            else [dquote] @ key @ [dquote] @ '': '') str"

definition singleQuoteStep :: "char \<Rightarrow> scan_state \<Rightarrow> scan_state" where
  "singleQuoteStep c st =
    (if sc_escaped st then st\<lparr>sc_result := sc_result st @ [c], sc_escaped := False\<rparr>
     else if c = bslash then st\<lparr>sc_result := sc_result st @ [c], sc_escaped := True\<rparr>
     else if c = dquote then
       st\<lparr>sc_inString := \<not> sc_inString st, sc_result := sc_result st @ [c]\<rparr>
     else if sc_inString st then st\<lparr>sc_result := sc_result st @ [c]\<rparr>
     else if c = squote then st\<lparr>sc_result := sc_result st @ [dquote]\<rparr>
     else st\<lparr>sc_result := sc_result st @ [c]\<rparr>)"

text \<open>In \<open>replaceSingleQuotes\<close> the flag \<open>sc_inString\<close> is \<open>inDoubleQuote\<close>.\<close>

definition replaceSingleQuotes :: "string \<Rightarrow> string" where
  "replaceSingleQuotes str =
     sc_result (fold singleQuoteStep str
       \<lparr>sc_result = [], sc_inString = False, sc_stringChar = CHR 0x00, sc_escaped = False\<rparr>)"

definition replacePhpValues :: "string \<Rightarrow> string" where
  \<open>replacePhpValues str =
    (let result = replaceAll
           (seqs [WordB, Group 1 (alts [lit ''true'', lit ''false'', lit ''null'',
                                        lit ''TRUE'', lit ''FALSE'', lit ''NULL'']), WordB])
           (\<lambda>m. toLowerCase (matchedText m)) str;
         result = replaceAll (seqs [WordB, lit ''INF'', WordB]) (\<lambda>_. ''"Infinity"'') result;
         result = replaceAll (seqs [WordB, lit ''NAN'', WordB]) (\<lambda>_. ''"NaN"'') result;
         result = replaceAll (seqs [WordB, lit ''-INF'', WordB]) (\<lambda>_. ''"-Infinity"'') result
     in result)\<close>

text \<open>\<open>/(\w+)(\s*:\s*)/g\<close>\<close>

definition rxKeyColon :: rx where
  "rxKeyColon = seqs [Group 1 (Plus wordC), Group 2 (seqs [sp0, lit '':'', sp0])]"

definition fixKeyFormat :: "string \<Rightarrow> string" where
  "fixKeyFormat str =
     replaceAll rxKeyColon
       (\<lambda>m. let key = groupOr m 1; colon = groupOr m 2 in
            if \<not> rxTest rxAllDigits key \<and> \<not> rxTest rxStartsQuoted key
            then [dquote] @ key @ [dquote] @ colon
            else matchedText m) str"

text \<open>
  \<open>convertBrackets\<close>: the stack of open brackets (innermost first), each with its
  position and whether a colon was seen directly inside it, and the pairs found.
\<close>

record bracket_state =
  br_stack :: "(nat \<times> bool) list"
  br_pairs :: "(nat \<times> nat \<times> bool) list"
  br_inString :: bool
  br_stringChar :: char
  br_escaped :: bool

definition bracketStep :: "nat \<times> char \<Rightarrow> bracket_state \<Rightarrow> bracket_state" where
  "bracketStep ic st =
    (let i = fst ic; c = snd ic in
     if br_escaped st then st\<lparr>br_escaped := False\<rparr>
     else if c = bslash then st\<lparr>br_escaped := True\<rparr>
     else if c = dquote \<or> c = squote then
       (if \<not> br_inString st then st\<lparr>br_inString := True, br_stringChar := c\<rparr>
        else if c = br_stringChar st then st\<lparr>br_inString := False\<rparr>
        else st)
     else if br_inString st then st
     else if c = CHR ''['' then st\<lparr>br_stack := (i, False) # br_stack st\<rparr>
     else if c = CHR '']'' then
       (case br_stack st of
          [] \<Rightarrow> st
        | tp # below \<Rightarrow>
            st\<lparr>br_stack := below, br_pairs := br_pairs st @ [(fst tp, i, snd tp)]\<rparr>)
     else if c = CHR '':'' then
       (case br_stack st of
          [] \<Rightarrow> st
        | tp # below \<Rightarrow> st\<lparr>br_stack := (fst tp, True) # below\<rparr>)
     else st)"

definition convertBrackets :: "string \<Rightarrow> string" where
  "convertBrackets str =
    (let st = fold bracketStep (enumerate 0 str)
                \<lparr>br_stack = [], br_pairs = [], br_inString = False,
                 br_stringChar = CHR 0x00, br_escaped = False\<rparr>;
         pairs = rev (sort_key (\<lambda>p. fst p) (br_pairs st))
     in fold (\<lambda>p result.
                if snd (snd p)
                then (result[fst p := CHR ''{''])[fst (snd p) := CHR ''}'']
                else result) pairs str)"

text \<open>
  The degraded parser ends in the host's \<open>JSON.parse\<close>, which is a parameter here: it
  returns a value or the error it throws.
\<close>

definition simpleParsePHPArray :: "(string \<Rightarrow> 'e + PHPValue) \<Rightarrow> string \<Rightarrow> 'e + PHPValue" where
  "simpleParsePHPArray jsonParse phpString =
    (let cleanString = replaceArraySyntax phpString;
         cleanString = replaceArrowSyntax cleanString;
         cleanString = replaceSingleQuotes cleanString;
         cleanString = replacePhpValues cleanString;
         cleanString = fixKeyFormat cleanString;
         cleanString = convertBrackets cleanString
     in jsonParse cleanString)"

subsection \<open>parsePHPArray\<close>

text \<open>
  \<open>/<\?php|<\?|\?>/g\<close>, \<open>/^return\s+/\<close>, \<open>/^\$\w+\s*=\s*/\<close> and \<open>/;$/\<close>
\<close>

definition rxPhpTags :: rx where
  "rxPhpTags = alts [lit ''<?php'', lit ''<?'', lit ''?>'']"

definition rxReturn :: rx where
  "rxReturn = seqs [Bol, lit ''return'', sp1]"

definition rxAssignment :: rx where
  "rxAssignment = seqs [Bol, lit ''$'', Plus wordC, sp0, lit ''='', sp0]"

definition rxFinalSemicolon :: rx where
  "rxFinalSemicolon = Seq (lit '';'') Eol"

definition cleanInput :: "string \<Rightarrow> string" where
  "cleanInput phpString =
    (let cleanString = trim (replaceAll rxPhpTags (\<lambda>_. []) phpString);
         cleanString = replaceFirst rxReturn (\<lambda>_. []) cleanString;
         cleanString = replaceFirst rxAssignment (\<lambda>_. []) cleanString;
         cleanString = replaceFirst rxFinalSemicolon (\<lambda>_. []) cleanString
     in cleanString)"

definition parsePHPArray :: "(string \<Rightarrow> 'e + PHPValue) \<Rightarrow> string \<Rightarrow> 'e + PHPValue" where
  "parsePHPArray jsonParse phpString =
    (let cleanString = cleanInput phpString
     in case smartParsePHPArray cleanString of
          Inr v \<Rightarrow> Inr v
        | Inl _ \<Rightarrow> simpleParsePHPArray jsonParse cleanString)"

subsection \<open>convertToPHP\<close>

definition indentation :: "nat \<Rightarrow> string" where
  "indentation n = concat (replicate n ''    '')"

definition escapeKey :: "string \<Rightarrow> string" where
  "escapeKey key =
     replaceAll (lit [squote]) (\<lambda>_. [bslash, squote])
       (replaceAll (lit [bslash]) (\<lambda>_. [bslash, bslash]) key)"

definition escapeString :: "string \<Rightarrow> string" where
  "escapeString obj =
    (let s = replaceAll (lit [bslash]) (\<lambda>_. [bslash, bslash]) obj;
         s = replaceAll (lit [squote]) (\<lambda>_. [bslash, squote]) s;
         s = replaceAll (lit [newline]) (\<lambda>_. [bslash, CHR ''n'']) s;
         s = replaceAll (lit [creturn]) (\<lambda>_. [bslash, CHR ''r'']) s;
         s = replaceAll (lit [tabchar]) (\<lambda>_. [bslash, CHR ''t'']) s
     in s)"

text \<open>\<open>/^\d+$/.test(key)\<close>\<close>

definition isNumericKey :: "string \<Rightarrow> bool" where
  "isNumericKey key = rxTest rxAllDigits key"

text \<open>
  \<open>isSequentialKeys\<close>: the keys are numeric and, read as numbers and sorted, are
  \<open>0, 1, ..., N-1\<close>.
\<close>

definition isSequentialKeys :: "string list \<Rightarrow> bool" where
  "isSequentialKeys keys =
     (list_all isNumericKey keys
      \<and> list_all (\<lambda>(index, num). num = index) (enumerate 0 (sort (map natOfDigits keys))))"

definition quotedKey :: "bool \<Rightarrow> string \<Rightarrow> string" where
  "quotedKey sequential key =
     (if sequential then []
      else if isNumericKey key then key @ '' => ''
      else [squote] @ escapeKey key @ [squote] @ '' => '')"

definition convertNumber :: "number \<Rightarrow> string" where
  "convertNumber n =
     (case n of
        NaN \<Rightarrow> ''NAN''
      | PosInf \<Rightarrow> ''INF''
      | NegInf \<Rightarrow> ''-INF''
      | NegZero \<Rightarrow> numberToString n
      | Finite r \<Rightarrow> numberToString n)"

text \<open>
  The loop over the keys of an object is written over its properties, each key with
  the value \<open>obj[key]\<close>.
\<close>

function convertToPHP :: "PHPValue \<Rightarrow> nat \<Rightarrow> string" where
  "convertToPHP (PArray obj) indent =
    (if length obj = 0 then ''[]''
     else ''['' @ [newline]
          @ concat (map (\<lambda>(index, item).
                      indentation (indent + 1) @ convertToPHP item (indent + 1)
                      @ (if index < length obj - 1 then '','' else []) @ [newline])
                    (enumerate 0 obj))
          @ indentation indent @ '']'')"
| "convertToPHP (PObject obj) indent =
    (let keys = map fst obj in
     if length keys = 0 then ''[]''
     else ''['' @ [newline]
          @ concat (map (\<lambda>(index, key, item).
                      indentation (indent + 1) @ quotedKey (isSequentialKeys keys) key
                      @ convertToPHP item (indent + 1)
                      @ (if index < length keys - 1 then '','' else []) @ [newline])
                    (enumerate 0 obj))
          @ indentation indent @ '']'')"
| "convertToPHP (PString obj) indent = [squote] @ escapeString obj @ [squote]"
| "convertToPHP (PBoolean obj) indent = (if obj then ''true'' else ''false'')"
| "convertToPHP PNull indent = ''null''"
| "convertToPHP (PNumber obj) indent = convertNumber obj"
  by pat_completeness auto
termination
proof (relation "measure (\<lambda>(v, n). size v)")
  fix obj :: "PHPValue list" and indent x index item
  assume "(index, item) = x" "x \<in> set (enumerate 0 obj)"
  then have "index < length obj" and "obj ! index = item"
    by (auto simp: in_set_enumerate_eq)
  then have "item \<in> set obj" using nth_mem [of index obj] by simp
  then have "size item \<le> size_list size obj" by (simp add: size_list_estimation')
  then show "((item, indent + 1), PArray obj, indent) \<in> measure (\<lambda>(v, n). size v)" by simp
next
  fix obj :: "(string \<times> PHPValue) list" and indent keys x index y key item
  assume "(index, y) = x" "(key, item) = y" "x \<in> set (enumerate 0 obj)"
  then have "index < length obj" and "obj ! index = (key, item)"
    by (auto simp: in_set_enumerate_eq)
  then have "(key, item) \<in> set obj" using nth_mem [of index obj] by simp
  then have "size_prod (\<lambda>_. 0) size (key, item) \<le> size_list (size_prod (\<lambda>_. 0) size) obj"
    by (rule size_list_estimation') simp
  then show "((item, indent + 1), PObject obj, indent) \<in> measure (\<lambda>(v, n). size v)" by simp
qed simp

declare convertToPHP.simps [simp del]

subsection \<open>The values that survive serialization and parsing\<close>

text \<open>No two neighbours in a string stand in the relation \<open>P\<close>.\<close>

fun noPair :: "(char \<Rightarrow> char \<Rightarrow> bool) \<Rightarrow> string \<Rightarrow> bool" where
  "noPair P [] = True"
| "noPair P [x] = True"
| "noPair P (x # y # zs) = (\<not> P x y \<and> noPair P (y # zs))"

text \<open>
  A backslash before one of the letters \<open>n\<close>, \<open>r\<close>, \<open>t\<close>; the two characters of the
  PHP tags \<open><?\<close> and \<open>?>\<close>. A string is plain when it holds neither.
\<close>

definition escapePair :: "char \<Rightarrow> char \<Rightarrow> bool" where
  "escapePair x y = (x = bslash \<and> (y = CHR ''n'' \<or> y = CHR ''r'' \<or> y = CHR ''t''))"

definition tagPair :: "char \<Rightarrow> char \<Rightarrow> bool" where
  "tagPair x y = ((x = CHR ''<'' \<and> y = CHR ''?'') \<or> (x = CHR ''?'' \<and> y = CHR ''>''))"

definition plainString :: "string \<Rightarrow> bool" where
  "plainString s = (noPair escapePair s \<and> noPair tagPair s)"

text \<open>
  The numbers that JavaScript prints without an exponent: zero and the magnitudes from
  \<open>10^-6\<close> up to, but not including, \<open>10^21\<close>, with at most twenty-two fractional
  digits. The negative zero is not among them.
\<close>

definition plainNumber :: "number \<Rightarrow> bool" where
  "plainNumber n =
     (case n of
        Finite r \<Rightarrow> (r = 0 \<or> 1 / 1000000 \<le> \<bar>r\<bar>) \<and> \<bar>r\<bar> < 10 ^ 21
                     \<and> r * 10 ^ 22 = of_int \<lfloor>r * 10 ^ 22\<rfloor>
      | _ \<Rightarrow> False)"

text \<open>
  A key made of digits is canonical when it is the decimal form of its number (no
  leading zero) and the number is below \<open>2^53\<close>, so that reading it as a double is
  exact; any other key is to be plain and not \<open>__proto__\<close>.
\<close>

definition canonicalKey :: "string \<Rightarrow> bool" where
  "canonicalKey k =
     (if isNumericKey k then k = showNat (natOfDigits k) \<and> int (natOfDigits k) < 9007199254740992
      else plainString k \<and> k \<noteq> ''__proto__'')"

text \<open>
  The order in which JavaScript enumerates the keys of an object: \<open>a\<close> may stand before
  \<open>b\<close> when they differ and, if \<open>b\<close> is an array index, \<open>a\<close> is a smaller one.
\<close>

definition keyBefore :: "string \<Rightarrow> string \<Rightarrow> bool" where
  "keyBefore a b =
     (a \<noteq> b \<and> (if isArrayIndex b then isArrayIndex a \<and> natOfDigits a < natOfDigits b else True))"

definition jsOrdered :: "string list \<Rightarrow> bool" where
  "jsOrdered keys = sorted_wrt keyBefore keys"

fun rtValue :: "PHPValue \<Rightarrow> bool" where
  "rtValue (PString s) = plainString s"
| "rtValue (PNumber n) = plainNumber n"
| "rtValue (PBoolean b) = True"
| "rtValue PNull = True"
| "rtValue (PArray xs) = list_all rtValue xs"
| "rtValue (PObject kvs) =
     (list_all (\<lambda>kv. rtValue (snd kv)) kvs
      \<and> jsOrdered (map fst kvs)
      \<and> (isSequentialKeys (map fst kvs) \<or> list_all canonicalKey (map fst kvs)))"

text \<open>
  What comes back: a map whose keys are \<open>0, ..., N-1\<close> (the empty map among them) is
  written without keys and read as the list of its values.
\<close>

fun collapse :: "PHPValue \<Rightarrow> PHPValue" where
  "collapse (PArray xs) = PArray (map collapse xs)"
| "collapse (PObject kvs) =
     (if isSequentialKeys (map fst kvs) then PArray (map (\<lambda>kv. collapse (snd kv)) kvs)
      else PObject (map (\<lambda>kv. (fst kv, collapse (snd kv))) kvs))"
| "collapse v = v"

fun keyedMaps :: "PHPValue \<Rightarrow> bool" where
  "keyedMaps (PArray xs) = list_all keyedMaps xs"
| "keyedMaps (PObject kvs) =
     (\<not> isSequentialKeys (map fst kvs) \<and> list_all (\<lambda>kv. keyedMaps (snd kv)) kvs)"
| "keyedMaps v = True"


text \<open>A value with nested lists and maps, none of them a map with the keys \<open>0, ..., N-1\<close>.\<close>

definition sampleArray :: PHPValue where
  "sampleArray =
     PObject [(''7'', PNumber (Finite (- 42))),
              (''name'', PString ''it's''),
              (''path'', PString (''C:'' @ [bslash] @ ''dir'' @ [bslash, bslash, dquote, newline])),
              (''what?'', PNumber (Finite (25 / 2))),
              (''tags'', PArray [PNumber (Finite 1), PBoolean True, PNull, PString ''a > b?'']),
              (''nested'', PObject [(''1'', PNumber (Finite (- 1 / 1000000))), (''k'', PArray [])])]"

section \<open>DDL parser (src/lib/ddl-parser.ts)\<close>

subsection \<open>Types (src/types/ddl.ts)\<close>

datatype IndexType = PRIMARY | UNIQUE | INDEX | FULLTEXT | SPATIAL

record FieldIndex =
  fi_name :: string
  fi_type :: IndexType
  isFirst :: bool

record TableField =
  field_name :: string
  field_type :: string
  nullable :: bool
  defaultValue :: "string option"
  autoIncrement :: bool
  comment :: string
  isPrimaryKey :: bool
  field_indexes :: "FieldIndex list"

record TableIndex =
  index_type :: IndexType
  index_name :: string
  columns :: "string list"
  missingColumns :: "string list option"

record TableInfo =
  tableName :: string
  tableComment :: string
  table_fields :: "TableField list"
  table_indexes :: "TableIndex list"

record StandaloneIndex =
  si_tableName :: string
  si_index :: TableIndex

record DDLParseResult =
  tables :: "TableInfo list"
  standaloneIndexes :: "StandaloneIndex list"

datatype ddl_error =
    UnrecognizedCreateTable
  | UnparsableTableBody

subsection \<open>Splitting\<close>

text \<open>\<open>s.split(c)\<close> for a separator of one character.\<close>

fun splitOn :: "char \<Rightarrow> string \<Rightarrow> string list" where
  "splitOn sep [] = [[]]"
| "splitOn sep (c # cs) =
     (if c = sep then [] # splitOn sep cs
      else (case splitOn sep cs of
              [] \<Rightarrow> [[c]]
            | x # xs \<Rightarrow> (c # x) # xs))"

text \<open>
  The state of the loop of \<open>splitDefinitions\<close>; \<open>sd_prev\<close> is \<open>content[i - 1]\<close>.
\<close>

record split_state =
  sd_definitions :: "string list"
  sd_current :: string
  sd_depth :: int
  sd_inString :: bool
  sd_stringChar :: char
  sd_prev :: "char option"

definition splitStep :: "char \<Rightarrow> split_state \<Rightarrow> split_state" where
  "splitStep c st =
    (let st' = st\<lparr>sd_prev := Some c\<rparr> in
     if sd_inString st then
       st'\<lparr>sd_current := sd_current st @ [c],
           sd_inString := \<not> (c = sd_stringChar st \<and> sd_prev st \<noteq> Some bslash)\<rparr>
     else if c = squote \<or> c = dquote \<or> c = CHR ''`'' then
       st'\<lparr>sd_inString := True, sd_stringChar := c, sd_current := sd_current st @ [c]\<rparr>
     else if c = CHR ''('' then
       st'\<lparr>sd_depth := sd_depth st + 1, sd_current := sd_current st @ [c]\<rparr>
     else if c = CHR '')'' then
       st'\<lparr>sd_depth := sd_depth st - 1, sd_current := sd_current st @ [c]\<rparr>
     else if c = CHR '','' \<and> sd_depth st = 0 then
       st'\<lparr>sd_definitions := sd_definitions st @ [trim (sd_current st)], sd_current := []\<rparr>
     else st'\<lparr>sd_current := sd_current st @ [c]\<rparr>)"

definition splitDefinitions :: "string \<Rightarrow> string list" where
  "splitDefinitions content =
    (let st = fold splitStep content
                \<lparr>sd_definitions = [], sd_current = [], sd_depth = 0, sd_inString = False,
                 sd_stringChar = CHR 0x00, sd_prev = None\<rparr>
     in if trim (sd_current st) \<noteq> []
        then sd_definitions st @ [trim (sd_current st)]
        else sd_definitions st)"

subsection \<open>The regular expressions of the parser\<close>

definition quoteC :: rx where
  "quoteC = oneOf [CHR ''`'', dquote, squote]"

text \<open>\<open>/\s+/g\<close> replaced by one space.\<close>

definition collapseSpaces :: "string \<Rightarrow> string" where
  "collapseSpaces s = replaceAll sp1 (\<lambda>_. '' '') s"

text \<open>\<open>/[`"']?(\w+)[`"']?/\<close>\<close>

definition rxColumn :: rx where
  "rxColumn = seqs [Opt quoteC, Group 1 (Plus wordC), Opt quoteC]"

definition parseIndexColumns :: "string \<Rightarrow> string list" where
  "parseIndexColumns columnsStr =
     filter (\<lambda>s. s \<noteq> [])
       (map (\<lambda>col. case rxExec rxColumn (trim col) of
                      Some m \<Rightarrow> (case matchGroup m 1 of Some g \<Rightarrow> g | None \<Rightarrow> [])
                    | None \<Rightarrow> [])
            (splitOn (CHR '','') columnsStr))"

subsection \<open>parseCreateIndex\<close>

text \<open>
  \<open>/CREATE\s+(UNIQUE\s+|FULLTEXT\s+|SPATIAL\s+)?INDEX\s+[`"']?(\w+)[`"']?\s+ON\s+[`"']?(\w+)[`"']?\s*\(([^)]+)\)/i\<close>
\<close>

definition rxCreateIndex :: rx where
  "rxCreateIndex =
     seqs [litI ''CREATE'', sp1,
           Opt (Group 1 (alts [Seq (litI ''UNIQUE'') sp1, Seq (litI ''FULLTEXT'') sp1,
                               Seq (litI ''SPATIAL'') sp1])),
           litI ''INDEX'', sp1, Opt quoteC, Group 2 (Plus wordC), Opt quoteC, sp1,
           litI ''ON'', sp1, Opt quoteC, Group 3 (Plus wordC), Opt quoteC, sp0,
           lit ''('', Group 4 (Plus (noneOf '')'')), lit '')'']"

definition parseCreateIndex :: "string \<Rightarrow> StandaloneIndex option" where
  "parseCreateIndex stmt =
    (case rxExec rxCreateIndex stmt of
       None \<Rightarrow> None
     | Some m \<Rightarrow>
        (let typeStr = toUpperCase (trim (groupOr m 1));
             t = (if typeStr = ''UNIQUE'' then UNIQUE
                  else if typeStr = ''FULLTEXT'' then FULLTEXT
                  else if typeStr = ''SPATIAL'' then SPATIAL
                  else INDEX);
             name = groupOr m 2;
             tableName = groupOr m 3;
             columns = parseIndexColumns (groupOr m 4)
         in Some \<lparr>si_tableName = tableName,
                  si_index = \<lparr>index_type = t, index_name = name, columns = columns,
                              missingColumns = None\<rparr>\<rparr>))"

subsection \<open>parseField\<close>

text \<open>\<open>/^[`"']?(\w+)[`"']?\s+(.+)$/i\<close>\<close>

definition rxFieldName :: rx where
  "rxFieldName = seqs [Bol, Opt quoteC, Group 1 (Plus wordC), Opt quoteC, sp1,
                       Group 2 (Plus dotC), Eol]"

text \<open>\<open>/^(\w+(?:\s*\([^)]+\))?(?:\s+unsigned)?(?:\s+zerofill)?)/i\<close>\<close>

definition rxFieldType :: rx where
  "rxFieldType =
     seqs [Bol, Group 1 (seqs [Plus wordC,
                               Opt (seqs [sp0, lit ''('', Plus (noneOf '')''), lit '')'']),
                               Opt (Seq sp1 (litI ''unsigned'')),
                               Opt (Seq sp1 (litI ''zerofill''))])]"

text \<open>\<open>/\bNOT\s+NULL\b/i\<close>, \<open>/\bAUTO_INCREMENT\b/i\<close>, \<open>/\bPRIMARY\s+KEY\b/i\<close>\<close>

definition rxNotNull :: rx where
  "rxNotNull = seqs [WordB, litI ''NOT'', sp1, litI ''NULL'', WordB]"

definition rxAutoIncrement :: rx where
  "rxAutoIncrement = seqs [WordB, litI ''AUTO_INCREMENT'', WordB]"

definition rxPrimaryKeyWord :: rx where
  "rxPrimaryKeyWord = seqs [WordB, litI ''PRIMARY'', sp1, litI ''KEY'', WordB]"

text \<open>\<open>/DEFAULT\s+('(?:[^'\\]|\\.)*'|"(?:[^"\\]|\\.)*"|[\w()]+)/i\<close>\<close>

definition rxDefault :: rx where
  "rxDefault =
     seqs [litI ''DEFAULT'', sp1,
           Group 1 (alts [
             seqs [lit [squote], Star (Alt (noneOf [squote, bslash]) (Seq (lit [bslash]) dotC)),
                   lit [squote]],
             seqs [lit [dquote], Star (Alt (noneOf [dquote, bslash]) (Seq (lit [bslash]) dotC)),
                   lit [dquote]],
             Plus (Chr (\<lambda>c. isWordChar c \<or> c = CHR ''('' \<or> c = CHR '')''))])]"

text \<open>\<open>/^['"]|['"]$/g\<close>\<close>

definition rxOuterQuote :: rx where
  "rxOuterQuote = Alt (Seq Bol (oneOf [squote, dquote])) (Seq (oneOf [squote, dquote]) Eol)"

text \<open>\<open>/COMMENT\s+['"]([^'"]*)['"]/i\<close>\<close>

definition rxFieldComment :: rx where
  "rxFieldComment =
     seqs [litI ''COMMENT'', sp1, oneOf [squote, dquote],
           Group 1 (Star (noneOf [squote, dquote])), oneOf [squote, dquote]]"

definition parseField :: "string \<Rightarrow> TableField option" where
  "parseField fieldDef =
    (let normalizedDef = trim (collapseSpaces fieldDef) in
     case rxExec rxFieldName normalizedDef of
       None \<Rightarrow> None
     | Some nameMatch \<Rightarrow>
        (let name = groupOr nameMatch 1;
             rest = groupOr nameMatch 2;
             ftype = (case rxExec rxFieldType rest of
                        Some typeMatch \<Rightarrow> collapseSpaces (trim (groupOr typeMatch 1))
                      | None \<Rightarrow> ''UNKNOWN'');
             isNullable = (\<not> rxTest rxNotNull rest);
             dflt = (case rxExec rxDefault rest of
                       Some defaultMatch \<Rightarrow>
                         Some (replaceAll rxOuterQuote (\<lambda>_. []) (groupOr defaultMatch 1))
                     | None \<Rightarrow> None);
             autoInc = rxTest rxAutoIncrement rest;
             cmt = (case rxExec rxFieldComment rest of
                      Some commentMatch \<Rightarrow> groupOr commentMatch 1
                    | None \<Rightarrow> []);
             isPk = rxTest rxPrimaryKeyWord rest
         in Some \<lparr>field_name = name, field_type = ftype, nullable = isNullable,
                  defaultValue = dflt, autoIncrement = autoInc, comment = cmt,
                  isPrimaryKey = isPk, field_indexes = []\<rparr>))"

subsection \<open>parseInlineIndex\<close>

text \<open>\<open>/\(([^)]+)\)/\<close>\<close>

definition rxParenList :: rx where
  "rxParenList = seqs [lit ''('', Group 1 (Plus (noneOf '')'')), lit '')'']"

text \<open>
  \<open>/^KW\s+(?:KEY|INDEX)\s+[`"']?(\w+)[`"']?\s*\(([^)]+)\)/i\<close> for a keyword \<open>KW\<close>, and
  the same without the keyword.
\<close>

definition rxNamedIndex :: "rx \<Rightarrow> rx" where
  "rxNamedIndex kw =
     seqs [Bol, kw, Alt (litI ''KEY'') (litI ''INDEX''), sp1,
           Opt quoteC, Group 1 (Plus wordC), Opt quoteC, sp0,
           lit ''('', Group 2 (Plus (noneOf '')'')), lit '')'']"

definition namedIndexParts :: "rx \<Rightarrow> string \<Rightarrow> string \<times> string list" where
  "namedIndexParts kw normalizedDef =
     (case rxExec (rxNamedIndex kw) normalizedDef of
        Some nameMatch \<Rightarrow> (groupOr nameMatch 1, parseIndexColumns (groupOr nameMatch 2))
      | None \<Rightarrow> ([], []))"

definition parseInlineIndex :: "string \<Rightarrow> TableIndex option" where
  "parseInlineIndex indexDef =
    (let normalizedDef = trim (collapseSpaces indexDef);
         (t, name, cols) =
           (if rxTest (seqs [Bol, litI ''PRIMARY'', sp1, litI ''KEY'']) normalizedDef then
              (PRIMARY, ''PRIMARY'',
               (case rxExec rxParenList normalizedDef of
                  Some colMatch \<Rightarrow> parseIndexColumns (groupOr colMatch 1)
                | None \<Rightarrow> []))
            else if rxTest (seqs [Bol, litI ''UNIQUE'', sp1, Alt (litI ''KEY'') (litI ''INDEX'')])
                      normalizedDef then
              (UNIQUE, namedIndexParts (Seq (litI ''UNIQUE'') sp1) normalizedDef)
            else if rxTest (seqs [Bol, litI ''FULLTEXT'', sp1, Alt (litI ''KEY'') (litI ''INDEX'')])
                      normalizedDef then
              (FULLTEXT, namedIndexParts (Seq (litI ''FULLTEXT'') sp1) normalizedDef)
            else if rxTest (seqs [Bol, Alt (litI ''KEY'') (litI ''INDEX'')]) normalizedDef then
              (INDEX, namedIndexParts Eps normalizedDef)
            else (INDEX, [], []))
     in if length cols = 0 then None
        else Some \<lparr>index_type = t, index_name = name, columns = cols, missingColumns = None\<rparr>)"

subsection \<open>parseCreateTable\<close>

text \<open>\<open>/CREATE\s+TABLE\s+(?:IF\s+NOT\s+EXISTS\s+)?[`"']?(\w+)[`"']?/i\<close>\<close>

definition rxTableName :: rx where
  "rxTableName =
     seqs [litI ''CREATE'', sp1, litI ''TABLE'', sp1,
           Opt (seqs [litI ''IF'', sp1, litI ''NOT'', sp1, litI ''EXISTS'', sp1]),
           Opt quoteC, Group 1 (Plus wordC), Opt quoteC]"

text \<open>\<open>/\)\s*[^;]*COMMENT\s*=?\s*['"]([^'"]+)['"]/i\<close>\<close>

definition rxTableComment :: rx where
  "rxTableComment =
     seqs [lit '')'', sp0, Star (noneOf '';''), litI ''COMMENT'', sp0, Opt (lit ''=''), sp0,
           oneOf [squote, dquote], Group 1 (Plus (noneOf [squote, dquote])),
           oneOf [squote, dquote]]"

text \<open>\<open>/CREATE\s+TABLE[^(]*\(([\s\S]+)\)[^)]*$/i\<close>\<close>

definition rxTableContent :: rx where
  "rxTableContent =
     seqs [litI ''CREATE'', sp1, litI ''TABLE'', Star (noneOf ''(''), lit ''('',
           Group 1 (Plus anyC), lit '')'', Star (noneOf '')''), Eol]"

text \<open>
  \<open>/^(PRIMARY\s+KEY|UNIQUE\s+KEY|UNIQUE\s+INDEX|KEY|INDEX|FULLTEXT\s+KEY|FULLTEXT\s+INDEX|SPATIAL\s+KEY|SPATIAL\s+INDEX|CONSTRAINT)/i\<close>
\<close>

definition rxIndexDefinition :: rx where
  "rxIndexDefinition =
     Seq Bol (Group 1 (alts [
       seqs [litI ''PRIMARY'', sp1, litI ''KEY''],
       seqs [litI ''UNIQUE'', sp1, litI ''KEY''],
       seqs [litI ''UNIQUE'', sp1, litI ''INDEX''],
       litI ''KEY'',
       litI ''INDEX'',
       seqs [litI ''FULLTEXT'', sp1, litI ''KEY''],
       seqs [litI ''FULLTEXT'', sp1, litI ''INDEX''],
       seqs [litI ''SPATIAL'', sp1, litI ''KEY''],
       seqs [litI ''SPATIAL'', sp1, litI ''INDEX''],
       litI ''CONSTRAINT'']))"

text \<open>\<open>/^[`"']?\w+[`"']?\s+/i\<close>\<close>

definition rxFieldDefinition :: rx where
  "rxFieldDefinition = seqs [Bol, Opt quoteC, Plus wordC, Opt quoteC, sp1]"

text \<open>The loop over the definitions of a table body: fields and indexes, in order.\<close>

definition classifyDefinition ::
  "string \<Rightarrow> TableField list \<times> TableIndex list \<Rightarrow> TableField list \<times> TableIndex list" where
  "classifyDefinition def acc =
    (let trimmedDef = trim def in
     if trimmedDef = [] then acc
     else if rxTest rxIndexDefinition trimmedDef then
       (case parseInlineIndex trimmedDef of
          Some indexInfo \<Rightarrow> (fst acc, snd acc @ [indexInfo])
        | None \<Rightarrow> acc)
     else if rxTest rxFieldDefinition trimmedDef then
       (case parseField trimmedDef of
          Some fieldInfo \<Rightarrow> (fst acc @ [fieldInfo], snd acc)
        | None \<Rightarrow> acc)
     else acc)"

text \<open>The entries an index contributes to the \<open>indexes\<close> of a field.\<close>

definition fieldIndexOf :: "TableField \<Rightarrow> TableIndex \<Rightarrow> FieldIndex list" where
  "fieldIndexOf field index =
     (if list_ex (\<lambda>col. toLowerCase col = toLowerCase (field_name field)) (columns index)
      then [\<lparr>fi_name = index_name index, fi_type = index_type index,
              isFirst = (toLowerCase (hd (columns index)) = toLowerCase (field_name field))\<rparr>]
      else [])"

definition missingOf :: "string list \<Rightarrow> TableIndex \<Rightarrow> string list" where
  "missingOf fieldNames index =
     filter (\<lambda>col. toLowerCase col \<notin> set fieldNames) (columns index)"

definition parseCreateTable :: "string \<Rightarrow> ddl_error + TableInfo" where
  "parseCreateTable ddl =
    (case rxExec rxTableName ddl of
       None \<Rightarrow> Inl UnrecognizedCreateTable
     | Some tableNameMatch \<Rightarrow>
        (let name = groupOr tableNameMatch 1;
             tcomment = (case rxExec rxTableComment ddl of
                           Some tableCommentMatch \<Rightarrow> groupOr tableCommentMatch 1
                         | None \<Rightarrow> [])
         in case rxExec rxTableContent ddl of
              None \<Rightarrow> Inl UnparsableTableBody
            | Some contentMatch \<Rightarrow>
               (let content = groupOr contentMatch 1;
                    definitions = splitDefinitions content;
                    (fields0, indexes0) = fold classifyDefinition definitions ([], []);
                    fieldNames = map (\<lambda>f. toLowerCase (field_name f)) fields0;
                    fields1 = map (\<lambda>f. f\<lparr>field_indexes := concat (map (fieldIndexOf f) indexes0)\<rparr>)
                                  fields0;
                    indexes1 = map (\<lambda>i. i\<lparr>missingColumns := Some (missingOf fieldNames i)\<rparr>)
                                   indexes0
                in Inr \<lparr>tableName = name, tableComment = tcomment,
                        table_fields = fields1, table_indexes = indexes1\<rparr>)))"

subsection \<open>parseDDL\<close>

text \<open>\<open>/--.*$/gm\<close> and \<open>/\/\*[\s\S]*?\*\//g\<close>\<close>

definition rxLineComment :: rx where
  "rxLineComment = seqs [lit ''--'', Star dotC, EolM]"

definition rxBlockComment :: rx where
  "rxBlockComment = seqs [lit ''/*'', LazyStar anyC, lit ''*/'']"

text \<open>\<open>/CREATE\s+TABLE/i\<close> and \<open>/CREATE\s+(UNIQUE\s+)?INDEX/i\<close>\<close>

definition rxIsCreateTable :: rx where
  "rxIsCreateTable = seqs [litI ''CREATE'', sp1, litI ''TABLE'']"

definition rxIsCreateIndex :: rx where
  "rxIsCreateIndex =
     seqs [litI ''CREATE'', sp1, Opt (Group 1 (Seq (litI ''UNIQUE'') sp1)), litI ''INDEX'']"

text \<open>
  A \<open>CREATE INDEX\<close> for a known table: the index, with its missing columns, is added to
  the table, and every field among its columns gets an entry.
\<close>

definition attachIndex :: "TableInfo \<Rightarrow> TableIndex \<Rightarrow> TableInfo" where
  "attachIndex table index =
    (let fieldNames = map (\<lambda>f. toLowerCase (field_name f)) (table_fields table);
         index' = index\<lparr>missingColumns := Some (missingOf fieldNames index)\<rparr>
     in table\<lparr>table_indexes := table_indexes table @ [index'],
              table_fields := map (\<lambda>f. f\<lparr>field_indexes := field_indexes f @ fieldIndexOf f index'\<rparr>)
                            (table_fields table)\<rparr>)"

text \<open>
  The state of the loop of \<open>parseDDL\<close>: the record \<open>tables\<close>, keyed by the lower-cased
  table name, and \<open>standaloneIndexes\<close>.
\<close>

type_synonym ddl_state = "(string \<times> TableInfo) list \<times> StandaloneIndex list"

definition parseStatement :: "string \<Rightarrow> ddl_state \<Rightarrow> ddl_error + ddl_state" where
  "parseStatement stmt st =
    (if rxTest rxIsCreateTable stmt then
       (case parseCreateTable stmt of
          Inl e \<Rightarrow> Inl e
        | Inr tableResult \<Rightarrow>
            Inr (objSet (fst st) (toLowerCase (tableName tableResult)) tableResult, snd st))
     else if rxTest rxIsCreateIndex stmt then
       (case parseCreateIndex stmt of
          None \<Rightarrow> Inr st
        | Some indexResult \<Rightarrow>
           (let name = toLowerCase (si_tableName indexResult) in
            case map_of (fst st) name of
              Some table \<Rightarrow> Inr (objSet (fst st) name (attachIndex table (si_index indexResult)), snd st)
            | None \<Rightarrow> Inr (fst st, snd st @ [indexResult])))
     else Inr st)"

fun parseStatements :: "string list \<Rightarrow> ddl_state \<Rightarrow> ddl_error + ddl_state" where
  "parseStatements [] st = Inr st"
| "parseStatements (stmt # stmts) st =
     (case parseStatement stmt st of
        Inl e \<Rightarrow> Inl e
      | Inr st' \<Rightarrow> parseStatements stmts st')"

definition splitStatements :: "string \<Rightarrow> string list" where
  "splitStatements ddl =
    (let cleanDDL = replaceAll rxBlockComment (\<lambda>_. []) (replaceAll rxLineComment (\<lambda>_. []) ddl)
     in filter (\<lambda>s. length s > 0) (map trim (splitOn (CHR '';'') cleanDDL)))"

definition parseDDL :: "string \<Rightarrow> ddl_error + DDLParseResult" where
  "parseDDL ddl =
    (case parseStatements (splitStatements ddl) ([], []) of
       Inl e \<Rightarrow> Inl e
     | Inr st \<Rightarrow> Inr \<lparr>tables = map snd (fst st), standaloneIndexes = snd st\<rparr>)"

section \<open>Lemmas on the PHP array parser and serializer\<close>

subsection \<open>Replacing a literal of one or two characters\<close>

lemma replaceFrom_Chr:
  "ahead st = s \<Longrightarrow>
   replaceFrom (Chr p) (\<lambda>_. r) st = concat (map (\<lambda>x. if p x then r else [x]) s)"
proof (induction s arbitrary: st)
  case Nil
  then show ?case by (simp add: replaceFrom.simps matches_step)
next
  case (Cons x xs)
  show ?case
  proof (cases "p x")
    case True
    with Cons.prems Cons.IH [of "st\<lparr>seen := x # seen st, ahead := xs, caps := []\<rparr>"]
    show ?thesis by (simp add: replaceFrom.simps [of _ _ st] matches_step)
  next
    case False
    with Cons.prems Cons.IH [of "stepState x xs st"]
    show ?thesis by (simp add: replaceFrom.simps [of _ _ st] stepState_def matches_step)
  qed
qed

lemma replaceAll_char:
  "replaceAll (lit [c]) (\<lambda>_. r) s = concat (map (\<lambda>x. if x = c then r else [x]) s)"
  by (simp add: replaceAll_def startState_def replaceFrom_Chr)

fun repl2 :: "char \<Rightarrow> char \<Rightarrow> string \<Rightarrow> string \<Rightarrow> string" where
  "repl2 a b r [] = []"
| "repl2 a b r [x] = [x]"
| "repl2 a b r (x # y # zs) =
     (if x = a \<and> y = b then r @ repl2 a b r zs else x # repl2 a b r (y # zs))"

lemma replaceFrom_pair:
  "ahead st = s \<Longrightarrow>
   replaceFrom (Seq (Chr (\<lambda>x. x = a)) (Chr (\<lambda>x. x = b))) (\<lambda>_. r) st = repl2 a b r s"
proof (induction a b r s arbitrary: st rule: repl2.induct)
  case (1 a b r)
  then show ?case by (simp add: replaceFrom.simps matches_step)
next
  case (2 a b r x)
  then show ?case
    by (simp add: replaceFrom.simps [of _ _ st] stepState_def matches_step)
       (simp add: replaceFrom.simps matches_step)
next
  case (3 a b r x y zs)
  show ?case
  proof (cases "x = a \<and> y = b")
    case True
    with 3(3) 3(1) [of "st\<lparr>seen := y # x # seen st, ahead := zs, caps := []\<rparr>"]
    show ?thesis by (simp add: replaceFrom.simps [of _ _ st] matches_step)
  next
    case False
    with 3(3) 3(2) [of "stepState x (y # zs) st"]
    show ?thesis by (auto simp add: replaceFrom.simps [of _ _ st] stepState_def matches_step)
  qed
qed

lemma replaceAll_pair:
  "replaceAll (lit [a, b]) (\<lambda>_. r) s = repl2 a b r s"
  by (simp add: replaceAll_def startState_def replaceFrom_pair)

lemma repl2_skip: "x \<noteq> a \<Longrightarrow> repl2 a b r (x # zs) = x # repl2 a b r zs"
  by (cases zs) auto

lemma repl2_absent: "a \<notin> set s \<Longrightarrow> repl2 a b r s = s"
  by (induction a b r s rule: repl2.induct) auto

subsection \<open>Escaping and unescaping\<close>

lemma noPair_tl: "noPair P (x # s) \<Longrightarrow> noPair P s"
  by (cases s) auto

lemma noPair_Cons: "noPair P (x # s) \<longleftrightarrow> (s = [] \<or> \<not> P x (hd s)) \<and> noPair P s"
  by (cases s) auto

lemma noPair_mono: "(\<And>x y. Q x y \<Longrightarrow> P x y) \<Longrightarrow> noPair P s \<Longrightarrow> noPair Q s"
  by (induction P s rule: noPair.induct) auto

text \<open>
  A string made of blocks: a character other than \<open>a\<close> stands for itself or is written
  as \<open>a\<close> and a second character, and \<open>a\<close> is written twice. Replacing the pair \<open>a b\<close>
  meets the blocks written \<open>a b\<close> and nothing else, unless an \<open>a\<close> stands before a
  block that begins with \<open>b\<close>.
\<close>

lemma repl2_blocks:
  assumes "\<forall>x \<in> set s. (x \<noteq> a \<and> (e x = [x] \<or> (\<exists>y. e x = [a, y] \<and> y \<noteq> a)))
                        \<or> (x = a \<and> e x = [a, a])"
    and "b \<noteq> a"
    and "noPair (\<lambda>x y. x = a \<and> hd (e y) = b) s"
  shows "repl2 a b r (concat (map e s)) = concat (map (\<lambda>x. if e x = [a, b] then r else e x) s)"
  using assms(1,3)
proof (induction s)
  case Nil
  then show ?case by simp
next
  case (Cons x xs)
  let ?rest = "concat (map e xs)"
  from Cons.prems have IH: "repl2 a b r ?rest = concat (map (\<lambda>x. if e x = [a, b] then r else e x) xs)"
    using Cons.IH noPair_tl [of _ x xs] by simp
  from Cons.prems(1) consider "x \<noteq> a" "e x = [x]" | y where "x \<noteq> a" "e x = [a, y]" "y \<noteq> a"
    | "x = a" "e x = [a, a]"
    by auto
  then show ?case
  proof cases
    case 1
    with assms(2) IH show ?thesis by (simp add: repl2_skip)
  next
    case 2
    with IH show ?thesis by (simp add: repl2_skip)
  next
    case 3
    have "repl2 a b r (a # ?rest) = a # repl2 a b r ?rest"
    proof (cases xs)
      case Nil
      then show ?thesis by simp
    next
      case (Cons x' xs')
      with Cons.prems(2) 3(1) have h: "hd (e x') \<noteq> b" by simp
      from Cons.prems(1) Cons have "e x' \<noteq> []" by auto
      then obtain c cs where c: "e x' = c # cs" by (cases "e x'") auto
      with h have "c \<noteq> b" by simp
      with c Cons show ?thesis by simp
    qed
    with 3 assms(2) IH show ?thesis by simp
  qed
qed

text \<open>The characters that \<open>escapeString\<close> and \<open>escapeKey\<close> write with a backslash.\<close>

definition esc1 :: "char \<Rightarrow> string" where
  "esc1 x = (if x = bslash then [bslash, bslash]
             else if x = squote then [bslash, squote]
             else if x = newline then [bslash, CHR ''n'']
             else if x = creturn then [bslash, CHR ''r'']
             else if x = tabchar then [bslash, CHR ''t'']
             else [x])"

definition escS :: "char set \<Rightarrow> char \<Rightarrow> string" where
  "escS S x = (if x = bslash \<or> x \<in> S then esc1 x else [x])"

lemma concat_map_concat_map:
  "concat (map f (concat (map g s))) = concat (map (\<lambda>x. concat (map f (g x))) s)"
  by (induction s) auto

lemma escapeString_blocks:
  "escapeString s = concat (map (escS {squote, newline, creturn, tabchar}) s)"
  unfolding escapeString_def Let_def replaceAll_char concat_map_concat_map
  by (intro arg_cong [where f = concat] map_cong refl) (simp add: escS_def esc1_def)

lemma escapeKey_blocks: "escapeKey s = concat (map (escS {squote}) s)"
  unfolding escapeKey_def Let_def replaceAll_char concat_map_concat_map
  by (intro arg_cong [where f = concat] map_cong refl) (simp add: escS_def esc1_def)

lemma escS_cases:
  assumes "S \<subseteq> {squote, newline, creturn, tabchar}"
  shows "(x \<noteq> bslash \<and> (escS S x = [x] \<or> (\<exists>y. escS S x = [bslash, y] \<and> y \<noteq> bslash)))
         \<or> (x = bslash \<and> escS S x = [bslash, bslash])"
proof (cases "x = bslash \<or> x \<in> S")
  case False
  then show ?thesis by (simp add: escS_def)
next
  case True
  with assms have "x = bslash \<or> x = squote \<or> x = newline \<or> x = creturn \<or> x = tabchar" by auto
  with True show ?thesis by (auto simp: escS_def esc1_def)
qed

lemma hd_escS:
  assumes "S \<subseteq> {squote, newline, creturn, tabchar}" and "b \<noteq> bslash"
  shows "hd (escS S y) = b \<longleftrightarrow> y = b \<and> y \<notin> S"
proof (cases "y = bslash \<or> y \<in> S")
  case False
  then show ?thesis by (simp add: escS_def)
next
  case True
  with assms(1) have "y = bslash \<or> y = squote \<or> y = newline \<or> y = creturn \<or> y = tabchar" by auto
  then have "hd (esc1 y) = bslash" by (auto simp: esc1_def)
  with True assms(2) show ?thesis by (auto simp: escS_def)
qed

lemma unescape_pass:
  assumes "S \<subseteq> {squote, newline, creturn, tabchar}"
    and "esc1 c = [bslash, b]" and "c \<noteq> bslash"
    and "noPair (\<lambda>x y. x = bslash \<and> y = b \<and> y \<notin> S) s"
  shows "repl2 bslash b [c] (concat (map (escS S) s)) = concat (map (escS (S - {c})) s)"
proof -
  from assms(2,3) have b: "b \<noteq> bslash" by (auto simp: esc1_def split: if_splits)
  have "repl2 bslash b [c] (concat (map (escS S) s)) =
        concat (map (\<lambda>x. if escS S x = [bslash, b] then [c] else escS S x) s)"
  proof (rule repl2_blocks)
    show "\<forall>x \<in> set s. (x \<noteq> bslash \<and> (escS S x = [x] \<or> (\<exists>y. escS S x = [bslash, y] \<and> y \<noteq> bslash)))
                        \<or> (x = bslash \<and> escS S x = [bslash, bslash])"
      using escS_cases [OF assms(1)] by blast
    show "b \<noteq> bslash" by (rule b)
    show "noPair (\<lambda>x y. x = bslash \<and> hd (escS S y) = b) s"
      using assms(4) by (rule noPair_mono [rotated]) (simp add: hd_escS [OF assms(1) b])
  qed
  moreover have "(\<lambda>x. if escS S x = [bslash, b] then [c] else escS S x) = escS (S - {c})"
  proof (rule ext)
    fix x
    show "(if escS S x = [bslash, b] then [c] else escS S x) = escS (S - {c}) x"
    proof (cases "x = bslash \<or> x \<in> S")
      case False
      with b show ?thesis by (simp add: escS_def)
    next
      case True
      with assms(1) have "x = bslash \<or> x = squote \<or> x = newline \<or> x = creturn \<or> x = tabchar"
        by auto
      then consider "x = bslash" | "x = squote" | "x = newline" | "x = creturn" | "x = tabchar"
        by blast
      then show ?thesis
      proof cases
        case 1 with b assms(3) show ?thesis by (simp add: escS_def esc1_def)
      next
        case 2 with True assms(2,3) show ?thesis
          by (cases "c = squote") (auto simp: escS_def esc1_def split: if_splits)
      next
        case 3 with True assms(2,3) show ?thesis
          by (cases "c = newline") (auto simp: escS_def esc1_def split: if_splits)
      next
        case 4 with True assms(2,3) show ?thesis
          by (cases "c = creturn") (auto simp: escS_def esc1_def split: if_splits)
      next
        case 5 with True assms(2,3) show ?thesis
          by (cases "c = tabchar") (auto simp: escS_def esc1_def split: if_splits)
      qed
    qed
  qed
  ultimately show ?thesis by simp
qed

text \<open>
  The last two replacements of \<open>unescapeString\<close> halve the backslashes: that of a
  backslash and a double quote takes one backslash away before a double quote, where
  that of two backslashes then finds one pair less.
\<close>

lemma unescape_doubled:
  "repl2 bslash bslash [bslash]
     (repl2 bslash dquote [dquote] (concat (map (escS {}) s))) = s"
proof (induction s)
  case Nil
  then show ?case by simp
next
  case (Cons x xs)
  let ?d = "concat (map (escS {}) xs)"
  show ?case
  proof (cases "x = bslash")
    case False
    then have "escS {} x = [x]" by (simp add: escS_def)
    with False Cons show ?thesis by (simp add: repl2_skip)
  next
    case True
    then have e: "escS {} x = [bslash, bslash]" by (simp add: escS_def esc1_def)
    show ?thesis
    proof (cases "xs \<noteq> [] \<and> hd xs = dquote")
      case q: True
      then obtain xs' where xs: "xs = dquote # xs'" by (cases xs) auto
      then have d: "?d = dquote # concat (map (escS {}) xs')" by (simp add: escS_def)
      have "repl2 bslash dquote [dquote] (bslash # bslash # ?d)
            = bslash # repl2 bslash dquote [dquote] ?d"
        by (simp add: d repl2_skip)
      moreover have "repl2 bslash dquote [dquote] ?d
            = dquote # repl2 bslash dquote [dquote] (concat (map (escS {}) xs'))"
        by (simp add: d repl2_skip)
      ultimately have "repl2 bslash bslash [bslash]
            (repl2 bslash dquote [dquote] (bslash # bslash # ?d))
          = bslash # repl2 bslash bslash [bslash] (repl2 bslash dquote [dquote] ?d)"
        by simp
      with Cons e True show ?thesis by simp
    next
      case nq: False
      have "repl2 bslash dquote [dquote] (bslash # ?d) = bslash # repl2 bslash dquote [dquote] ?d"
      proof (cases xs)
        case Nil
        then show ?thesis by simp
      next
        case (Cons x' xs')
        with nq have "x' \<noteq> dquote" by simp
        then have "hd (escS {} x') \<noteq> dquote" by (simp add: escS_def esc1_def)
        moreover have "escS {} x' \<noteq> []" by (simp add: escS_def esc1_def)
        ultimately obtain c cs where "escS {} x' = c # cs" "c \<noteq> dquote"
          by (cases "escS {} x'") auto
        with Cons show ?thesis by simp
      qed
      then have "repl2 bslash dquote [dquote] (bslash # bslash # ?d)
            = bslash # bslash # repl2 bslash dquote [dquote] ?d"
        by simp
      with Cons e True show ?thesis by simp
    qed
  qed
qed

lemma unescape_escS:
  assumes "squote \<in> S" and "S \<subseteq> {squote, newline, creturn, tabchar}"
    and "noPair escapePair s"
  shows "unescapeString (concat (map (escS S) s)) = s"
proof -
  have p1: "repl2 bslash (CHR ''n'') [newline] (concat (map (escS S) s))
            = concat (map (escS (S - {newline})) s)"
  proof (rule unescape_pass [OF assms(2)])
    show "noPair (\<lambda>x y. x = bslash \<and> y = CHR ''n'' \<and> y \<notin> S) s"
      using assms(3) by (rule noPair_mono [rotated]) (simp add: escapePair_def)
  qed (simp_all add: esc1_def)
  have p2: "repl2 bslash (CHR ''r'') [creturn] (concat (map (escS (S - {newline})) s))
            = concat (map (escS (S - {newline} - {creturn})) s)"
  proof (rule unescape_pass)
    show "S - {newline} \<subseteq> {squote, newline, creturn, tabchar}" using assms(2) by blast
    show "noPair (\<lambda>x y. x = bslash \<and> y = CHR ''r'' \<and> y \<notin> S - {newline}) s"
      using assms(3) by (rule noPair_mono [rotated]) (simp add: escapePair_def)
  qed (simp_all add: esc1_def)
  have p3: "repl2 bslash (CHR ''t'') [tabchar] (concat (map (escS (S - {newline} - {creturn})) s))
            = concat (map (escS (S - {newline} - {creturn} - {tabchar})) s)"
  proof (rule unescape_pass)
    show "S - {newline} - {creturn} \<subseteq> {squote, newline, creturn, tabchar}"
      using assms(2) by blast
    show "noPair (\<lambda>x y. x = bslash \<and> y = CHR ''t'' \<and> y \<notin> S - {newline} - {creturn}) s"
      using assms(3) by (rule noPair_mono [rotated]) (simp add: escapePair_def)
  qed (simp_all add: esc1_def)
  have p4: "repl2 bslash squote [squote]
              (concat (map (escS (S - {newline} - {creturn} - {tabchar})) s))
            = concat (map (escS (S - {newline} - {creturn} - {tabchar} - {squote})) s)"
  proof (rule unescape_pass)
    show "S - {newline} - {creturn} - {tabchar} \<subseteq> {squote, newline, creturn, tabchar}"
      using assms(2) by blast
    have "\<And>x y. \<not> (x = bslash \<and> y = squote \<and> y \<notin> S - {newline} - {creturn} - {tabchar})"
      using assms(1) by simp
    then show "noPair (\<lambda>x y. x = bslash \<and> y = squote \<and> y \<notin> S - {newline} - {creturn} - {tabchar}) s"
      by (induction s rule: induct_list012) simp_all
  qed (simp_all add: esc1_def)
  have e: "S - {newline} - {creturn} - {tabchar} - {squote} = {}"
    using assms(2) by blast
  have "unescapeString (concat (map (escS S) s)) =
        repl2 bslash bslash [bslash] (repl2 bslash dquote [dquote] (concat (map (escS {}) s)))"
    unfolding unescapeString_def Let_def replaceAll_pair p1 p2 p3 p4 e ..
  also have "\<dots> = s" by (rule unescape_doubled)
  finally show ?thesis .
qed

lemma unescape_escapeString:
  "noPair escapePair s \<Longrightarrow> unescapeString (escapeString s) = s"
  using unescape_escS [of "{squote, newline, creturn, tabchar}" s]
  by (simp add: escapeString_blocks)

lemma unescape_escapeKey:
  "noPair escapePair s \<Longrightarrow> unescapeString (escapeKey s) = s"
  using unescape_escS [of "{squote}" s] by (simp add: escapeKey_blocks)

lemma keyedMaps_collapse: "keyedMaps v \<Longrightarrow> collapse v = v"
proof (induction v)
  case (PArray xs)
  then show ?case by (auto simp: list_all_iff intro: map_idI)
next
  case (PObject kvs)
  then have "map (\<lambda>kv. (fst kv, collapse (snd kv))) kvs = kvs"
    by (intro map_idI) (auto simp: list_all_iff snds.simps)
  with PObject show ?case by simp
qed auto

subsection \<open>Decimal digits\<close>

lemma digitVal_digitChar: "d < 10 \<Longrightarrow> digitVal (digitChar d) = d"
  by (simp add: digitVal_def digitChar_def)

lemma isDigitChar_digitChar: "d < 10 \<Longrightarrow> isDigitChar (digitChar d)"
  by (simp add: isDigitChar_def digitChar_def less_eq_char_def)

lemma natOfDigits_snoc: "natOfDigits (ds @ [c]) = 10 * natOfDigits ds + digitVal c"
  by (simp add: natOfDigits_def)

lemma natOfDigits_showNat: "natOfDigits (showNat n) = n"
proof (induction n rule: showNat.induct)
  case (1 n)
  show ?case
  proof (cases "n < 10")
    case True
    then show ?thesis
      by (simp add: showNat.simps [of n] natOfDigits_def digitVal_digitChar)
  next
    case False
    with 1 show ?thesis
      by (simp add: showNat.simps [of n] natOfDigits_snoc digitVal_digitChar)
  qed
qed

lemma showNat_digits: "list_all isDigitChar (showNat n)"
proof (induction n rule: showNat.induct)
  case (1 n)
  then show ?case
    by (cases "n < 10") (simp_all add: showNat.simps [of n] isDigitChar_digitChar)
qed

lemma showNat_nonempty: "showNat n \<noteq> []"
  by (cases "n < 10") (simp_all add: showNat.simps [of n])

lemma showNat_inj: "showNat a = showNat b \<Longrightarrow> a = b"
  by (metis natOfDigits_showNat)

lemma hd_showNat: "0 < n \<Longrightarrow> hd (showNat n) \<noteq> CHR ''0''"
proof (induction n rule: showNat.induct)
  case (1 n)
  show ?case
  proof (cases "n < 10")
    case True
    have "digitChar n \<noteq> CHR ''0''"
    proof
      assume "digitChar n = CHR ''0''"
      then have "digitVal (digitChar n) = digitVal (CHR ''0'')" by simp
      with True 1(2) show False by (simp add: digitVal_digitChar) (simp add: digitVal_def)
    qed
    with True show ?thesis by (simp add: showNat.simps [of n])
  next
    case False
    then have "0 < n div 10" by simp
    with 1(1) False have "hd (showNat (n div 10)) \<noteq> CHR ''0''" by simp
    with False show ?thesis
      by (simp add: showNat.simps [of n] hd_append showNat_nonempty)
  qed
qed

lemma isArrayIndex_showNat: "isArrayIndex (showNat n) \<longleftrightarrow> int n < 4294967295"
proof -
  have "showNat n = ''0'' \<or> hd (showNat n) \<noteq> CHR ''0''"
  proof (cases "n = 0")
    case True
    then show ?thesis by (simp add: showNat.simps [of 0] digitChar_def)
  next
    case False
    then show ?thesis using hd_showNat [of n] by simp
  qed
  then show ?thesis
    by (simp add: isArrayIndex_def showNat_nonempty showNat_digits natOfDigits_showNat)
qed

subsection \<open>Numbers\<close>

lemma natOfDigits_Nil: "natOfDigits [] = 0"
  by (simp add: natOfDigits_def)

lemma natOfDigits_append:
  "natOfDigits (as @ bs) = natOfDigits as * 10 ^ length bs + natOfDigits bs"
proof (induction bs rule: rev_induct)
  case Nil
  then show ?case by (simp add: natOfDigits_Nil)
next
  case (snoc b bs)
  have "natOfDigits (as @ bs @ [b]) = 10 * natOfDigits (as @ bs) + digitVal b"
    using natOfDigits_snoc [of "as @ bs" b] by simp
  with snoc natOfDigits_snoc [of bs b] show ?case by (simp add: algebra_simps)
qed

lemma natOfDigits_Cons: "natOfDigits (c # ds) = digitVal c * 10 ^ length ds + natOfDigits ds"
  using natOfDigits_append [of "[c]" ds] natOfDigits_snoc [of "[]" c]
  by (simp add: natOfDigits_Nil)

text \<open>The digits after the point, for a fraction that has at most \<open>n\<close> of them.\<close>

lemma fracDigits_value:
  assumes "0 \<le> f" and "f < 1" and "f * 10 ^ n = of_int k"
  shows "list_all isDigitChar (fracDigits n f)
         \<and> of_nat (natOfDigits (fracDigits n f)) / 10 ^ length (fracDigits n f) = f"
  using assms
proof (induction n arbitrary: f k)
  case 0
  then have "of_int k < (1 :: rat)" "(0 :: rat) \<le> of_int k" by simp_all
  then have "k = 0" by simp
  with 0 show ?case by (simp add: natOfDigits_Nil)
next
  case (Suc n)
  show ?case
  proof (cases "f = 0")
    case True
    then show ?thesis by (simp add: natOfDigits_Nil)
  next
    case False
    define d where "d = \<lfloor>f * 10\<rfloor>"
    define f' where "f' = f * 10 - of_int d"
    from Suc.prems have d0: "0 \<le> d" and d9: "d < 10" by (simp_all add: d_def floor_less_iff)
    have f0: "0 \<le> f'" and f1: "f' < 1" unfolding f'_def d_def by linarith+
    have "f' * 10 ^ n = of_int (k - d * 10 ^ n)"
      using Suc.prems(3) by (simp add: f'_def algebra_simps)
    from Suc.IH [OF f0 f1 this]
    have ih: "list_all isDigitChar (fracDigits n f')"
      "of_nat (natOfDigits (fracDigits n f')) / 10 ^ length (fracDigits n f') = f'"
      by simp_all
    have dn: "nat d < 10" using d0 d9 by simp
    have e: "fracDigits (Suc n) f = digitChar (nat d) # fracDigits n f'"
      using False by (simp add: d_def f'_def)
    let ?ds = "fracDigits n f'"
    have "(of_nat (natOfDigits (digitChar (nat d) # ?ds)) :: rat) / 10 ^ length (digitChar (nat d) # ?ds)
          = (of_nat (nat d) * 10 ^ length ?ds + of_nat (natOfDigits ?ds)) / (10 * 10 ^ length ?ds)"
      by (simp add: natOfDigits_Cons digitVal_digitChar [OF dn])
    also have "\<dots> = (of_nat (nat d) + of_nat (natOfDigits ?ds) / 10 ^ length ?ds) / 10"
      by (simp add: field_simps)
    also have "\<dots> = (of_int d + f') / 10" using ih(2) d0 by simp
    also have "\<dots> = f" by (simp add: f'_def)
    finally have "of_nat (natOfDigits (digitChar (nat d) # ?ds))
                    / 10 ^ length (digitChar (nat d) # ?ds) = f" .
    with ih(1) isDigitChar_digitChar [OF dn] show ?thesis unfolding e by simp
  qed
qed

lemma numberToString_int:
  "numberToString (Finite (of_int i)) = (if i < 0 then ''-'' else []) @ showNat (nat \<bar>i\<bar>)"
proof -
  have "\<bar>of_int i :: rat\<bar> = of_int \<bar>i\<bar>" by simp
  then have "\<lfloor>\<bar>of_int i :: rat\<bar>\<rfloor> = \<bar>i\<bar>" by (simp only: floor_of_int)
  then show ?thesis by (simp add: Let_def)
qed

text \<open>The text of a magnitude: its whole digits and, after a point, those of its fraction.\<close>

definition decimalText :: "rat \<Rightarrow> string" where
  "decimalText m =
     showNat (nat \<lfloor>m\<rfloor>)
     @ (if m - of_int \<lfloor>m\<rfloor> = 0 then [] else CHR ''.'' # fracDigits 22 (m - of_int \<lfloor>m\<rfloor>))"

lemma numberToString_Finite:
  "numberToString (Finite r) = (if r < 0 then ''-'' else []) @ decimalText \<bar>r\<bar>"
  by (simp add: decimalText_def Let_def)

lemma decimalText_shape:
  assumes "0 \<le> m" and "m * 10 ^ 22 = of_int k"
  shows "\<exists>ip fp. decimalText m = ip @ (if fp = [] then [] else CHR ''.'' # fp)
           \<and> list_all isDigitChar ip \<and> ip \<noteq> [] \<and> list_all isDigitChar fp
           \<and> of_nat (natOfDigits ip) + of_nat (natOfDigits fp) / 10 ^ length fp = m"
proof -
  define f where "f = m - of_int \<lfloor>m\<rfloor>"
  have f0: "0 \<le> f" and f1: "f < 1" unfolding f_def by linarith+
  have "f * 10 ^ 22 = of_int (k - \<lfloor>m\<rfloor> * 10 ^ 22)"
    using assms(2) by (simp add: f_def algebra_simps)
  from fracDigits_value [OF f0 f1 this]
  have fd: "list_all isDigitChar (fracDigits 22 f)"
    "of_nat (natOfDigits (fracDigits 22 f)) / 10 ^ length (fracDigits 22 f) = f"
    by simp_all
  have ip: "(of_nat (natOfDigits (showNat (nat \<lfloor>m\<rfloor>))) :: rat) = of_int \<lfloor>m\<rfloor>"
    using assms(1) by (simp add: natOfDigits_showNat)
  show ?thesis
  proof (cases "f = 0")
    case True
    then have "decimalText m = showNat (nat \<lfloor>m\<rfloor>) @ (if ([] :: string) = [] then [] else CHR ''.'' # [])"
      by (simp add: decimalText_def f_def)
    moreover have "of_nat (natOfDigits (showNat (nat \<lfloor>m\<rfloor>))) + of_nat (natOfDigits []) / 10 ^ length ([] :: string) = m"
      using ip True by (simp add: natOfDigits_Nil f_def)
    ultimately show ?thesis
      using showNat_digits [of "nat \<lfloor>m\<rfloor>"] showNat_nonempty [of "nat \<lfloor>m\<rfloor>"]
      by (intro exI [of _ "showNat (nat \<lfloor>m\<rfloor>)"] exI [of _ "[]"]) simp
  next
    case False
    then have ne: "fracDigits 22 f \<noteq> []"
      by (simp add: eval_nat_numeral)
    with False have "decimalText m = showNat (nat \<lfloor>m\<rfloor>)
        @ (if fracDigits 22 f = [] then [] else CHR ''.'' # fracDigits 22 f)"
      by (simp add: decimalText_def f_def)
    moreover have "of_nat (natOfDigits (showNat (nat \<lfloor>m\<rfloor>)))
        + of_nat (natOfDigits (fracDigits 22 f)) / 10 ^ length (fracDigits 22 f) = m"
      using ip fd(2) by (simp add: f_def)
    ultimately show ?thesis
      using showNat_digits [of "nat \<lfloor>m\<rfloor>"] showNat_nonempty [of "nat \<lfloor>m\<rfloor>"] fd(1)
      by (intro exI [of _ "showNat (nat \<lfloor>m\<rfloor>)"] exI [of _ "fracDigits 22 f"]) simp
  qed
qed

lemma takeWhile_digits: "list_all isDigitChar ds \<Longrightarrow> takeWhile isDigitChar ds = ds"
  by (simp add: list_all_iff)

lemma dropWhile_digits: "list_all isDigitChar ds \<Longrightarrow> dropWhile isDigitChar ds = []"
  by (simp add: list_all_iff)

lemma hd_digit_not_minus: "list_all isDigitChar ds \<Longrightarrow> ds \<noteq> [] \<Longrightarrow> hd ds \<noteq> CHR ''-''"
  by (cases ds) (auto simp: isDigitChar_def less_eq_char_def)

lemma point_not_digit: "\<not> isDigitChar (CHR ''.'')"
  by (simp add: isDigitChar_def less_eq_char_def)

lemma parseFloat_decimal:
  assumes "list_all isDigitChar ip" and "ip \<noteq> []" and "list_all isDigitChar fp"
  defines "t \<equiv> ip @ (if fp = [] then [] else CHR ''.'' # fp)"
    and "m \<equiv> (of_nat (natOfDigits ip) + of_nat (natOfDigits fp) / 10 ^ length fp :: rat)"
  shows "parseFloat t = Finite m"
    and "parseFloat (CHR ''-'' # t) = (if m = 0 then NegZero else Finite (- m))"
proof -
  from assms(1) have ipd: "\<forall>x \<in> set ip. isDigitChar x" by (simp add: list_all_iff)
  have tw: "takeWhile isDigitChar t = ip"
    using ipd point_not_digit by (simp add: t_def takeWhile_append2)
  have dw: "dropWhile isDigitChar t = (if fp = [] then [] else CHR ''.'' # fp)"
    using ipd point_not_digit by (simp add: t_def dropWhile_append)
  have fpv: "(case (if fp = [] then [] else CHR ''.'' # fp) of
               c # u \<Rightarrow> if c = CHR ''.'' then takeWhile isDigitChar u else [] | [] \<Rightarrow> []) = fp"
    using assms(3) by (simp add: takeWhile_digits)
  from assms(1,2) have "hd ip \<noteq> CHR ''-''" by (rule hd_digit_not_minus)
  with assms(2) have nm: "\<not> (case t of c # _ \<Rightarrow> c = CHR ''-'' | [] \<Rightarrow> False)"
    by (cases ip) (simp_all add: t_def)
  show "parseFloat t = Finite m"
    using nm assms(2) by (simp add: parseFloat_def Let_def tw dw fpv m_def)
  show "parseFloat (CHR ''-'' # t) = (if m = 0 then NegZero else Finite (- m))"
    using assms(2) by (simp add: parseFloat_def Let_def tw dw fpv m_def)
qed

lemma parseFloat_digits:
  assumes "list_all isDigitChar ds" and "ds \<noteq> []"
  shows "parseFloat ds = Finite (of_nat (natOfDigits ds))"
  using parseFloat_decimal(1) [OF assms, of "[]"] by (simp add: natOfDigits_Nil)

subsection \<open>Steps of the scanner\<close>

definition delimited :: "string \<Rightarrow> bool" where
  "delimited rest = (case rest of [] \<Rightarrow> True | c # _ \<Rightarrow> \<not> isNumberChar c \<and> \<not> isWordChar c)"

lemma delimited_simps [simp]:
  "delimited []" "delimited (newline # s)" "delimited (CHR '','' # s)" "delimited (CHR '' '' # s)"
  by (simp_all add: delimited_def isNumberChar_def isWordChar_def isDigitChar_def less_eq_char_def)

lemma tok_space: "isSpaceChar c \<Longrightarrow> tokenize (c # s) = tokenize s"
  by (simp add: tokenize.simps)

lemma tok_newline: "tokenize (newline # s) = tokenize s"
  by (simp add: tok_space isSpaceChar_def)

lemma tok_blank: "tokenize (CHR '' '' # s) = tokenize s"
  by (simp add: tok_space isSpaceChar_def)

lemma tok_indent: "tokenize (indentation n @ s) = tokenize s"
  by (induction n) (simp_all add: indentation_def tok_blank)

lemma tok_single:
  "tokenize (CHR ''['' # s) = LBRACKET # tokenize s"
  "tokenize (CHR '']'' # s) = RBRACKET # tokenize s"
  "tokenize (CHR '','' # s) = COMMA # tokenize s"
  by (simp_all add: tokenize.simps isSpaceChar_def isDigitChar_def isIdentStart_def
        singleCharTokens_def less_eq_char_def)

lemma tok_arrow_chars:
  "tokenize (CHR ''='' # CHR ''>'' # s) = ARROW # tokenize s"
  by (simp add: tokenize.simps(2) [of "CHR ''=''"] isSpaceChar_def isDigitChar_def isIdentStart_def
        less_eq_char_def)

lemma tok_arrow: "tokenize ('' => '' @ s) = ARROW # tokenize s"
  by (simp add: tok_blank tok_arrow_chars)

lemma takeWhile_word_delim:
  assumes "list_all isWordChar w" and "delimited rest"
  shows "takeWhile isWordChar (w @ rest) = w" and "dropWhile isWordChar (w @ rest) = rest"
proof -
  from assms(2) have r: "rest = [] \<or> \<not> isWordChar (hd rest)"
    by (cases rest) (auto simp: delimited_def)
  from assms(1) have w: "\<forall>x \<in> set w. isWordChar x" by (simp add: list_all_iff)
  from r w show "takeWhile isWordChar (w @ rest) = w"
    by (cases rest) (auto simp: takeWhile_append1 takeWhile_append2 takeWhile_eq_all_conv)
  from r w show "dropWhile isWordChar (w @ rest) = rest"
    by (cases rest) (auto simp: dropWhile_append)
qed

lemma takeWhile_number_delim:
  assumes "list_all isNumberChar ds" and "delimited rest"
  shows "takeWhile isNumberChar (ds @ rest) = ds" and "dropWhile isNumberChar (ds @ rest) = rest"
proof -
  from assms(2) have r: "rest = [] \<or> \<not> isNumberChar (hd rest)"
    by (cases rest) (auto simp: delimited_def)
  from assms(1) have w: "\<forall>x \<in> set ds. isNumberChar x"
    by (simp add: list_all_iff)
  from r w show "takeWhile isNumberChar (ds @ rest) = ds"
    by (cases rest) (auto simp: takeWhile_append1 takeWhile_append2 takeWhile_eq_all_conv)
  from r w show "dropWhile isNumberChar (ds @ rest) = rest"
    by (cases rest) (auto simp: dropWhile_append)
qed

lemma tok_literal:
  assumes "delimited rest"
  shows "tokenize (''true'' @ rest) = LITERAL ''true'' # tokenize rest"
    and "tokenize (''false'' @ rest) = LITERAL ''false'' # tokenize rest"
    and "tokenize (''null'' @ rest) = LITERAL ''null'' # tokenize rest"
proof -
  have w: "list_all isWordChar ''rue''" "list_all isWordChar ''alse''" "list_all isWordChar ''ull''"
    by (simp_all add: isWordChar_def less_eq_char_def)
  note tw = takeWhile_word_delim [OF _ assms]
  show "tokenize (''true'' @ rest) = LITERAL ''true'' # tokenize rest"
    using tw [OF w(1)]
    by (simp add: tokenize.simps(2) [of "CHR ''t''"] isSpaceChar_def isDigitChar_def isIdentStart_def
          less_eq_char_def identifierToken_def toLowerCase_def toLowerChar_def)
  show "tokenize (''false'' @ rest) = LITERAL ''false'' # tokenize rest"
    using tw [OF w(2)]
    by (simp add: tokenize.simps(2) [of "CHR ''f''"] isSpaceChar_def isDigitChar_def isIdentStart_def
          less_eq_char_def identifierToken_def toLowerCase_def toLowerChar_def)
  show "tokenize (''null'' @ rest) = LITERAL ''null'' # tokenize rest"
    using tw [OF w(3)]
    by (simp add: tokenize.simps(2) [of "CHR ''n''"] isSpaceChar_def isDigitChar_def isIdentStart_def
          less_eq_char_def identifierToken_def toLowerCase_def toLowerChar_def)
qed

lemma digit_not_special:
  assumes "isDigitChar c"
  shows "\<not> isSpaceChar c" "c \<noteq> dquote" "c \<noteq> squote" "c \<noteq> CHR ''-''"
  using assms by (auto simp: isDigitChar_def isSpaceChar_def less_eq_char_def)

text \<open>A text of digits and points that begins with a digit is read as one number.\<close>

lemma tok_number_chars:
  assumes "list_all isNumberChar t" and "t \<noteq> []" and "isDigitChar (hd t)" and "delimited rest"
  shows "tokenize (t @ rest) = NUMBER (parseFloat t) # tokenize rest"
    and "tokenize (CHR ''-'' # t @ rest) = NUMBER (parseFloat (CHR ''-'' # t)) # tokenize rest"
proof -
  from assms(2,3) obtain c cs where t: "t = c # cs" and c: "isDigitChar c" by (cases t) auto
  have "tokenize (c # (cs @ rest)) =
        NUMBER (parseFloat (takeWhile isNumberChar (c # cs @ rest)))
          # tokenize (dropWhile isNumberChar (c # cs @ rest))"
    using c digit_not_special [OF c] by (simp add: tokenize.simps(2) [of c] Let_def)
  with takeWhile_number_delim [OF assms(1,4)]
  show "tokenize (t @ rest) = NUMBER (parseFloat t) # tokenize rest"
    by (simp add: t)
  have "tokenize (CHR ''-'' # (t @ rest)) =
        NUMBER (parseFloat (CHR ''-'' # takeWhile isNumberChar (t @ rest)))
          # tokenize (dropWhile isNumberChar (t @ rest))"
    using c by (simp add: tokenize.simps(2) [of "CHR ''-''"] Let_def t isSpaceChar_def
                  isDigitChar_def less_eq_char_def)
  with takeWhile_number_delim [OF assms(1,4)]
  show "tokenize (CHR ''-'' # t @ rest) = NUMBER (parseFloat (CHR ''-'' # t)) # tokenize rest"
    by simp
qed

lemma tok_digits:
  assumes "list_all isDigitChar ds" and "ds \<noteq> []" and "delimited rest"
  shows "tokenize (ds @ rest) = NUMBER (Finite (of_nat (natOfDigits ds))) # tokenize rest"
proof -
  from assms(1) have n: "list_all isNumberChar ds" by (simp add: list_all_iff isNumberChar_def)
  from assms(1,2) have h: "isDigitChar (hd ds)" by (cases ds) simp_all
  from tok_number_chars(1) [OF n assms(2) h assms(3)] parseFloat_digits [OF assms(1,2)]
  show ?thesis by simp
qed

text \<open>The text of a plain number, and the token it is read as.\<close>

lemma plainNumber_text:
  assumes "plainNumber x"
  obtains r ip fp where "x = Finite r"
    and "numberToString x = (if r < 0 then ''-'' else []) @ ip @ (if fp = [] then [] else CHR ''.'' # fp)"
    and "list_all isDigitChar ip" and "ip \<noteq> []" and "list_all isDigitChar fp"
    and "of_nat (natOfDigits ip) + of_nat (natOfDigits fp) / 10 ^ length fp = \<bar>r\<bar>"
proof -
  from assms obtain r where x: "x = Finite r" and k: "r * 10 ^ 22 = of_int \<lfloor>r * 10 ^ 22\<rfloor>"
    by (cases x) (auto simp: plainNumber_def)
  have "\<bar>r\<bar> * 10 ^ 22 = of_int \<bar>\<lfloor>r * 10 ^ 22\<rfloor>\<bar>"
  proof -
    have "\<bar>r\<bar> * 10 ^ 22 = \<bar>r * 10 ^ 22\<bar>" by (simp add: abs_mult)
    also have "\<dots> = \<bar>of_int \<lfloor>r * 10 ^ 22\<rfloor>\<bar>" using k by simp
    finally show ?thesis by simp
  qed
  from decimalText_shape [OF _ this] obtain ip fp where
    dt: "decimalText \<bar>r\<bar> = ip @ (if fp = [] then [] else CHR ''.'' # fp)"
    and sh: "list_all isDigitChar ip" "ip \<noteq> []" "list_all isDigitChar fp"
    "of_nat (natOfDigits ip) + of_nat (natOfDigits fp) / 10 ^ length fp = \<bar>r\<bar>"
    by auto
  show thesis
  proof (rule that [of r ip fp])
    show "x = Finite r" by (rule x)
    show "numberToString x
          = (if r < 0 then ''-'' else []) @ ip @ (if fp = [] then [] else CHR ''.'' # fp)"
      unfolding x numberToString_Finite dt ..
  qed (rule sh)+
qed

lemma tok_number:
  assumes "plainNumber x" and "delimited rest"
  shows "tokenize (numberToString x @ rest) = NUMBER x # tokenize rest"
proof -
  from assms(1) obtain r ip fp where x: "x = Finite r"
    and n: "numberToString x = (if r < 0 then ''-'' else []) @ ip @ (if fp = [] then [] else CHR ''.'' # fp)"
    and ip: "list_all isDigitChar ip" "ip \<noteq> []" and fp: "list_all isDigitChar fp"
    and v: "of_nat (natOfDigits ip) + of_nat (natOfDigits fp) / 10 ^ length fp = \<bar>r\<bar>"
    by (rule plainNumber_text)
  let ?t = "ip @ (if fp = [] then [] else CHR ''.'' # fp)"
  have nc: "list_all isNumberChar ?t"
    using ip(1) fp by (auto simp: list_all_iff isNumberChar_def)
  have ne: "?t \<noteq> []" using ip(2) by simp
  have h: "isDigitChar (hd ?t)" using ip by (cases ip) simp_all
  note tk = tok_number_chars [OF nc ne h assms(2)]
  note pf = parseFloat_decimal [OF ip fp, unfolded v]
  show ?thesis
  proof (cases "r < 0")
    case False
    then have "\<bar>r\<bar> = r" by simp
    with tk(1) pf(1) n x False show ?thesis by simp
  next
    case True
    then have "\<bar>r\<bar> \<noteq> 0" "- \<bar>r\<bar> = r" by simp_all
    with tk(2) pf(2) n x True show ?thesis by simp
  qed
qed

subsection \<open>Anchored expressions\<close>

lemma search_Bol_later:
  "seen st \<noteq> [] \<Longrightarrow> search (Seq Bol r) st = None"
proof (induction "ahead st" arbitrary: st)
  case Nil
  then show ?case by (simp add: search.simps [of _ st] matches_step)
next
  case (Cons c cs)
  from Cons(1) [of "stepState c cs st"] Cons(2) [symmetric] Cons(3)
  show ?case by (simp add: search.simps [of _ st] stepState_def matches_step)
qed

lemma search_Bol_start:
  assumes "seen st = []"
  shows "search (Seq Bol r) st =
     (case matches r st of e # _ \<Rightarrow> Some (st, e) | [] \<Rightarrow> None)"
proof (cases "matches r st")
  case Nil
  show ?thesis
  proof (cases "ahead st")
    case Nil
    with \<open>matches r st = []\<close> assms show ?thesis
      by (simp add: search.simps [of _ st] matches_step)
  next
    case (Cons c cs)
    have "search (Seq Bol r) (stepState c cs st) = None"
      by (rule search_Bol_later) (simp add: stepState_def)
    with Cons \<open>matches r st = []\<close> assms show ?thesis
      by (simp add: search.simps [of _ st] matches_step)
  qed
next
  case (Cons e es)
  with assms show ?thesis by (simp add: search.simps [of _ st] matches_step)
qed

lemma rxExec_Bol:
  "rxExec (Seq Bol r) s =
     (case matches r (startState s) of
        e # _ \<Rightarrow> Some (startState s, e)
      | [] \<Rightarrow> None)"
  unfolding rxExec_def by (rule search_Bol_start) (simp add: startState_def)

lemma rxTest_Bol: "rxTest (Seq Bol r) s \<longleftrightarrow> matches r (startState s) \<noteq> []"
  by (simp add: rxTest_def rxExec_Bol split: list.splits)

lemma star_reaches_end:
  "(\<exists>st' \<in> set (matches (Star (Chr p)) st). ahead st' = []) \<longleftrightarrow> list_all p (ahead st)"
proof (induction "ahead st" arbitrary: st)
  case Nil
  then show ?case by (simp add: Nil [symmetric] matches_Star [of _ st] matches_step)
next
  case (Cons c cs)
  show ?case
  proof (cases "p c")
    case True
    let ?st1 = "st\<lparr>seen := c # seen st, ahead := cs\<rparr>"
    have "cs = ahead ?st1" by simp
    from Cons(1) [OF this] Cons(2) [symmetric] True show ?thesis
      by (simp add: matches_Star [of _ st] matches_step)
  next
    case False
    with Cons(2) [symmetric] show ?thesis
      by (simp add: matches_Star [of _ st] matches_step)
  qed
qed

lemma isNumericKey_iff: "isNumericKey k \<longleftrightarrow> k \<noteq> [] \<and> list_all isDigitChar k"
proof -
  have "matches (Seq (Plus digitC) Eol) (startState k) \<noteq> []
        \<longleftrightarrow> k \<noteq> [] \<and> list_all isDigitChar k"
  proof (cases k)
    case Nil
    then show ?thesis by (simp add: Plus_def digitC_def startState_def matches_step)
  next
    case (Cons c cs)
    show ?thesis
    proof (cases "isDigitChar c")
      case False
      with Cons show ?thesis by (simp add: Plus_def digitC_def startState_def matches_step)
    next
      case True
      let ?st1 = "\<lparr>seen = [c], ahead = cs, caps = []\<rparr>"
      have "matches (Seq (Plus digitC) Eol) (startState k) =
            concat (map (matches Eol) (matches (Star (Chr isDigitChar)) ?st1))"
        using True Cons by (simp add: Plus_def digitC_def startState_def matches_step)
      also have "\<dots> \<noteq> [] \<longleftrightarrow> (\<exists>st' \<in> set (matches (Star (Chr isDigitChar)) ?st1). ahead st' = [])"
        by (auto simp: matches_step)
      also have "\<dots> \<longleftrightarrow> list_all isDigitChar cs"
        using star_reaches_end [of isDigitChar ?st1] by simp
      finally show ?thesis using True Cons by simp
    qed
  qed
  then show ?thesis
    by (simp add: isNumericKey_def rxAllDigits_def rxTest_Bol)
qed

subsection \<open>The cleaning of the input leaves a serialized value alone\<close>

lemma phpTags_no_match:
  assumes "noPair tagPair (ahead st)"
  shows "matches rxPhpTags st = []"
proof (cases "ahead st")
  case Nil
  then show ?thesis by (simp add: rxPhpTags_def matches_step)
next
  case (Cons c cs)
  show ?thesis
  proof (cases cs)
    case Nil
    with Cons show ?thesis by (simp add: rxPhpTags_def matches_step)
  next
    case (Cons d ds)
    with \<open>ahead st = c # cs\<close> assms have "\<not> tagPair c d" by simp
    then have "c = CHR ''<'' \<Longrightarrow> d \<noteq> CHR ''?''" "c = CHR ''?'' \<Longrightarrow> d \<noteq> CHR ''>''"
      by (auto simp: tagPair_def)
    with Cons \<open>ahead st = c # cs\<close> show ?thesis
      by (cases "c = CHR ''<''"; cases "c = CHR ''?''") (simp_all add: rxPhpTags_def matches_step)
  qed
qed

lemma replaceFrom_phpTags:
  "noPair tagPair (ahead st) \<Longrightarrow> replaceFrom rxPhpTags f st = ahead st"
proof (induction "ahead st" arbitrary: st)
  case Nil
  then show ?case
    using phpTags_no_match [of st] by (simp add: replaceFrom.simps [of _ _ st] Nil(1) [symmetric])
next
  case (Cons c cs)
  have e: "cs = ahead (stepState c cs st)" by (simp add: stepState_def)
  from Cons(3) Cons(2) [symmetric] have "noPair tagPair cs" by (simp add: noPair_tl)
  with Cons(1) [OF e] have "replaceFrom rxPhpTags f (stepState c cs st) = cs"
    by (simp add: stepState_def)
  with Cons(2) [symmetric] phpTags_no_match [OF Cons(3)]
  show ?case by (simp add: replaceFrom.simps [of _ _ st])
qed

lemma stripTags_id: "noPair tagPair s \<Longrightarrow> replaceAll rxPhpTags f s = s"
  by (simp add: replaceAll_def replaceFrom_phpTags startState_def)

lemma trim_id:
  assumes "s \<noteq> []" and "\<not> isSpaceChar (hd s)" and "\<not> isSpaceChar (last s)"
  shows "trim s = s"
proof -
  from assms have a: "dropWhile isSpaceChar s = s" by (cases s) auto
  from assms have "rev s \<noteq> []" "\<not> isSpaceChar (hd (rev s))" by (simp_all add: hd_rev)
  then have "dropWhile isSpaceChar (rev s) = rev s" by (cases "rev s") auto
  with a show ?thesis by (simp add: trim_def)
qed

lemma replaceFirst_Bol_id:
  assumes "matches r (startState s) = []"
  shows "replaceFirst (Seq Bol r) f s = s"
  using assms by (simp add: replaceFirst_def rxExec_Bol)

lemma return_id:
  assumes "s \<noteq> []" and "hd s \<noteq> CHR ''r''"
  shows "replaceFirst rxReturn f s = s"
proof -
  from assms obtain c cs where "s = c # cs" "c \<noteq> CHR ''r''" by (cases s) auto
  then have "matches (Seq (lit ''return'') sp1) (startState s) = []"
    by (simp add: startState_def matches_step)
  then show ?thesis unfolding rxReturn_def seqs.simps by (rule replaceFirst_Bol_id)
qed

lemma assignment_id:
  assumes "s \<noteq> []" and "hd s \<noteq> CHR ''$''"
  shows "replaceFirst rxAssignment f s = s"
proof -
  from assms obtain c cs where "s = c # cs" "c \<noteq> CHR ''$''" by (cases s) auto
  then have "matches (seqs [lit ''$'', Plus wordC, sp0, lit ''='', sp0]) (startState s) = []"
    by (simp add: startState_def matches_step)
  then show ?thesis unfolding rxAssignment_def seqs.simps(3) [of Bol] by (rule replaceFirst_Bol_id)
qed

lemma search_semicolon:
  "ahead st = [] \<or> last (ahead st) \<noteq> CHR '';'' \<Longrightarrow> search rxFinalSemicolon st = None"
proof (induction "ahead st" arbitrary: st)
  case Nil
  then show ?case
    by (simp add: search.simps [of _ st] Nil(1) [symmetric] rxFinalSemicolon_def matches_step)
next
  case (Cons c cs)
  have e: "cs = ahead (stepState c cs st)" by (simp add: stepState_def)
  from Cons(3) Cons(2) [symmetric] have "cs = [] \<or> last cs \<noteq> CHR '';''"
    by (auto split: if_splits)
  with Cons(1) [OF e] have "search rxFinalSemicolon (stepState c cs st) = None"
    by (simp add: stepState_def)
  moreover have "matches rxFinalSemicolon st = []"
    using Cons(3) Cons(2) [symmetric]
    by (cases cs) (auto simp: rxFinalSemicolon_def matches_step split: if_splits)
  ultimately show ?case using Cons(2) [symmetric] by (simp add: search.simps [of _ st])
qed

lemma semicolon_id:
  assumes "s \<noteq> []" and "last s \<noteq> CHR '';''"
  shows "replaceFirst rxFinalSemicolon f s = s"
  using assms search_semicolon [of "startState s"]
  by (simp add: replaceFirst_def rxExec_def startState_def)

lemma cleanInput_id:
  assumes "s \<noteq> []" and "noPair tagPair s"
    and "\<not> isSpaceChar (hd s)" and "hd s \<noteq> CHR ''r''" and "hd s \<noteq> CHR ''$''"
    and "\<not> isSpaceChar (last s)" and "last s \<noteq> CHR '';''"
  shows "cleanInput s = s"
  using assms
  by (simp add: cleanInput_def Let_def stripTags_id trim_id return_id assignment_id semicolon_id)

subsection \<open>Scanning a serialized string\<close>

lemma scanString_escS:
  assumes "squote \<in> S" and "S \<subseteq> {squote, newline, creturn, tabchar}"
  shows "scanString squote (concat (map (escS S) s) @ squote # rest)
         = (concat (map (escS S) s), squote # rest)"
proof (induction s)
  case Nil
  then show ?case by (cases rest) simp_all
next
  case (Cons x xs)
  obtain d ds where t: "concat (map (escS S) xs) @ squote # rest = d # ds"
    by (cases "concat (map (escS S) xs) @ squote # rest") auto
  from escS_cases [OF assms(2), of x]
  consider "x \<noteq> bslash" "escS S x = [x]" | y where "escS S x = [bslash, y]"
    by auto
  then show ?case
  proof cases
    case 1
    with assms(1) have nq: "x \<noteq> squote" by (auto simp: escS_def esc1_def split: if_splits)
    have "scanString squote (concat (map (escS S) (x # xs)) @ squote # rest)
          = scanString squote (x # d # ds)"
      using t 1 by simp
    also have "\<dots> = (x # concat (map (escS S) xs), squote # rest)"
      using Cons [unfolded t] 1(1) nq by simp
    finally show ?thesis using 1 by simp
  next
    case 2
    with Cons show ?thesis by simp
  qed
qed

lemma tok_quoted:
  assumes "squote \<in> S" and "S \<subseteq> {squote, newline, creturn, tabchar}" and "noPair escapePair s"
  shows "tokenize (squote # concat (map (escS S) s) @ squote # rest)
         = STRING s squote # tokenize rest"
  using scanString_escS [OF assms(1,2), of s rest] unescape_escS [OF assms]
  by (simp add: tokenize.simps(2) [of squote] isSpaceChar_def)

lemma tok_string:
  assumes "noPair escapePair s"
  shows "tokenize (squote # escapeString s @ squote # rest) = STRING s squote # tokenize rest"
  using tok_quoted [OF _ _ assms, of "{squote, newline, creturn, tabchar}" rest]
  by (simp add: escapeString_blocks)

lemma tok_key:
  assumes "noPair escapePair s"
  shows "tokenize (squote # escapeKey s @ squote # rest) = STRING s squote # tokenize rest"
  using tok_quoted [OF _ _ assms, of "{squote}" rest] by (simp add: escapeKey_blocks)

subsection \<open>Elements separated by commas\<close>

text \<open>
  The elements of a list, each followed by \<open>d\<close> and all but the last by \<open>c\<close> before it:
  the loop of \<open>convertToPHP\<close>, and the tokens it stands for.
\<close>

fun sepLines :: "('a \<Rightarrow> 'b list) \<Rightarrow> 'b list \<Rightarrow> 'b list \<Rightarrow> 'a list \<Rightarrow> 'b list" where
  "sepLines g c d [] = []"
| "sepLines g c d [x] = g x @ d"
| "sepLines g c d (x # y # ys) = g x @ c @ d @ sepLines g c d (y # ys)"

lemma sepLines_cong [fundef_cong]:
  "xs = ys \<Longrightarrow> (\<And>x. x \<in> set ys \<Longrightarrow> g x = h x) \<Longrightarrow> c = c' \<Longrightarrow> d = d'
     \<Longrightarrow> sepLines g c d xs = sepLines h c' d' ys"
proof (induction h c' d' ys arbitrary: xs rule: sepLines.induct)
  case (3 h c' d' x y ys)
  from 3(1) [OF refl] 3(3-5) have "sepLines g c d (y # ys) = sepLines h c' d' (y # ys)" by simp
  with 3(2-5) show ?case by simp
qed simp_all

lemma enumerate_sepLines:
  "concat (map (\<lambda>(i, x). g x @ (if i < k + length xs - 1 then c else []) @ d) (enumerate k xs))
   = sepLines g c d xs"
proof (induction g c d xs arbitrary: k rule: sepLines.induct)
  case (3 g c d x y ys)
  have "k + length (x # y # ys) - 1 = Suc k + length (y # ys) - 1" by simp
  with 3 [of "Suc k"] show ?case by simp
qed simp_all

lemma convertToPHP_PArray:
  "convertToPHP (PArray obj) indent =
    (if obj = [] then ''[]''
     else ''['' @ [newline]
          @ sepLines (\<lambda>item. indentation (indent + 1) @ convertToPHP item (indent + 1))
              '','' [newline] obj
          @ indentation indent @ '']'')"
  using enumerate_sepLines
    [of "\<lambda>item. indentation (indent + 1) @ convertToPHP item (indent + 1)" 0 obj "'',''" "[newline]"]
  by (simp add: convertToPHP.simps)

lemma convertToPHP_PObject:
  "convertToPHP (PObject obj) indent =
    (if obj = [] then ''[]''
     else ''['' @ [newline]
          @ sepLines (\<lambda>(key, item). indentation (indent + 1)
                        @ quotedKey (isSequentialKeys (map fst obj)) key
                        @ convertToPHP item (indent + 1))
              '','' [newline] obj
          @ indentation indent @ '']'')"
  using enumerate_sepLines
    [of "\<lambda>(key, item). indentation (indent + 1)
                        @ quotedKey (isSequentialKeys (map fst obj)) key
                        @ convertToPHP item (indent + 1)" 0 obj "'',''" "[newline]"]
  by (simp add: convertToPHP.simps Let_def case_prod_unfold)

text \<open>The tokens of a serialized value.\<close>

definition keyToks :: "bool \<Rightarrow> string \<Rightarrow> Token list" where
  "keyToks sequential key =
     (if sequential then []
      else if isNumericKey key then [NUMBER (Finite (of_nat (natOfDigits key))), ARROW]
      else [STRING key squote, ARROW])"

fun toks :: "PHPValue \<Rightarrow> Token list" where
  "toks (PString s) = [STRING s squote]"
| "toks (PNumber n) = [NUMBER n]"
| "toks (PBoolean b) = [LITERAL (if b then ''true'' else ''false'')]"
| "toks PNull = [LITERAL ''null'']"
| "toks (PArray xs) = LBRACKET # sepLines toks [COMMA] [] xs @ [RBRACKET]"
| "toks (PObject kvs) =
     LBRACKET # sepLines (\<lambda>kv. keyToks (isSequentialKeys (map fst kvs)) (fst kv) @ toks (snd kv))
                  [COMMA] [] kvs @ [RBRACKET]"

lemma tok_sepLines:
  assumes "\<And>x rest. x \<in> set xs \<Longrightarrow> delimited rest \<Longrightarrow> tokenize (g x @ rest) = h x @ tokenize rest"
  shows "tokenize (sepLines g '','' [newline] xs @ tail) = sepLines h [COMMA] [] xs @ tokenize tail"
  using assms
proof (induction xs rule: induct_list012)
  case 1
  then show ?case by simp
next
  case (2 x)
  from 2 [of x "newline # tail"] show ?case by (simp add: tok_newline)
next
  case (3 x y zs)
  have "tokenize (sepLines g '','' [newline] (y # zs) @ tail)
        = sepLines h [COMMA] [] (y # zs) @ tokenize tail"
    by (rule 3(2)) (use 3(3) in auto)
  with 3(3) [of x "CHR '','' # newline # sepLines g '','' [newline] (y # zs) @ tail"]
  show ?case by (simp add: tok_single tok_newline)
qed

subsection \<open>The tokens of a serialized value\<close>

lemma tok_keyed:
  assumes "canonicalKey k" and "\<And>rest. delimited rest \<Longrightarrow> tokenize (body @ rest) = ts @ tokenize rest"
    and "delimited rest"
  shows "tokenize (quotedKey False k @ body @ rest) = keyToks False k @ ts @ tokenize rest"
proof (cases "isNumericKey k")
  case True
  then have d: "list_all isDigitChar k" "k \<noteq> []" by (simp_all add: isNumericKey_iff)
  have "tokenize (k @ '' => '' @ body @ rest)
        = NUMBER (Finite (of_nat (natOfDigits k))) # tokenize ('' => '' @ body @ rest)"
    by (rule tok_digits [OF d]) simp
  with True assms(2) [OF assms(3)] show ?thesis
    by (simp add: quotedKey_def keyToks_def tok_arrow_chars tok_blank)
next
  case False
  with assms(1) have "noPair escapePair k" by (simp add: canonicalKey_def plainString_def)
  from tok_key [OF this, of "'' => '' @ body @ rest"] False assms(2) [OF assms(3)]
  show ?thesis
    by (simp add: quotedKey_def keyToks_def tok_arrow_chars tok_blank)
qed

lemma tokenize_value:
  "rtValue v \<Longrightarrow> delimited rest \<Longrightarrow>
   tokenize (convertToPHP v n @ rest) = toks v @ tokenize rest"
proof (induction v arbitrary: n rest)
  case (PString s)
  then have "noPair escapePair s" by (simp add: plainString_def)
  from tok_string [OF this, of rest] show ?case by (simp add: convertToPHP.simps)
next
  case (PNumber x)
  then have p: "plainNumber x" by simp
  then have "convertNumber x = numberToString x"
    by (cases x) (simp_all add: convertNumber_def plainNumber_def)
  with tok_number [OF p PNumber(2)] show ?case
    by (simp add: convertToPHP.simps)
next
  case (PBoolean b)
  with tok_literal(1,2) [of rest] show ?case by (simp add: convertToPHP.simps)
next
  case PNull
  with tok_literal(3) [of rest] show ?case by (simp add: convertToPHP.simps)
next
  case (PArray xs)
  show ?case
  proof (cases "xs = []")
    case True
    then show ?thesis by (simp add: convertToPHP_PArray tok_single)
  next
    case False
    have el: "\<And>x r. x \<in> set xs \<Longrightarrow> delimited r \<Longrightarrow>
        tokenize ((indentation (n + 1) @ convertToPHP x (n + 1)) @ r) = toks x @ tokenize r"
      using PArray(1) PArray(2) by (simp add: tok_indent list_all_iff)
    have "tokenize (sepLines (\<lambda>item. indentation (n + 1) @ convertToPHP item (n + 1))
                      '','' [newline] xs @ indentation n @ '']'' @ rest)
          = sepLines toks [COMMA] [] xs @ tokenize (indentation n @ '']'' @ rest)"
      by (rule tok_sepLines) (rule el)
    with False show ?thesis
      by (simp add: convertToPHP_PArray tok_single tok_newline tok_indent)
  qed
next
  case (PObject kvs)
  show ?case
  proof (cases "kvs = []")
    case True
    then show ?thesis by (simp add: convertToPHP_PObject tok_single)
  next
    case False
    let ?seq = "isSequentialKeys (map fst kvs)"
    have vals: "\<And>k v r m. (k, v) \<in> set kvs \<Longrightarrow> delimited r \<Longrightarrow>
        tokenize (convertToPHP v m @ r) = toks v @ tokenize r"
    proof -
      fix k v r m assume kv: "(k, v) \<in> set kvs" and d: "delimited r"
      from kv PObject(2) have "rtValue v" by (auto simp: list_all_iff)
      with PObject(1) [OF kv _ _ d, of v m] show "tokenize (convertToPHP v m @ r) = toks v @ tokenize r"
        by (simp add: snds.simps)
    qed
    have el: "\<And>kv r. kv \<in> set kvs \<Longrightarrow> delimited r \<Longrightarrow>
        tokenize ((case kv of (key, item) \<Rightarrow>
                    indentation (n + 1) @ quotedKey ?seq key @ convertToPHP item (n + 1)) @ r)
        = (keyToks ?seq (fst kv) @ toks (snd kv)) @ tokenize r"
    proof -
      fix kv r assume kv: "kv \<in> set kvs" and d: "delimited r"
      obtain k v where e: "kv = (k, v)" by (cases kv)
      show "tokenize ((case kv of (key, item) \<Rightarrow>
                    indentation (n + 1) @ quotedKey ?seq key @ convertToPHP item (n + 1)) @ r)
        = (keyToks ?seq (fst kv) @ toks (snd kv)) @ tokenize r"
      proof (cases ?seq)
        case True
        with vals [of k v r "n + 1"] kv d e show ?thesis
          by (simp add: quotedKey_def keyToks_def tok_indent)
      next
        case False
        with PObject(2) kv e have ck: "canonicalKey k" by (auto simp: list_all_iff)
        have "tokenize (quotedKey False k @ convertToPHP v (n + 1) @ r)
              = keyToks False k @ toks v @ tokenize r"
          by (rule tok_keyed [OF ck _ d]) (rule vals [of k v], use kv e in simp)
        with False e show ?thesis by (simp add: tok_indent)
      qed
    qed
    have "tokenize (sepLines (\<lambda>(key, item). indentation (n + 1) @ quotedKey ?seq key
                               @ convertToPHP item (n + 1))
                      '','' [newline] kvs @ indentation n @ '']'' @ rest)
          = sepLines (\<lambda>kv. keyToks ?seq (fst kv) @ toks (snd kv)) [COMMA] [] kvs
              @ tokenize (indentation n @ '']'' @ rest)"
      by (rule tok_sepLines) (rule el)
    with False show ?thesis
      by (simp add: convertToPHP_PObject tok_single tok_newline tok_indent)
  qed
qed

subsection \<open>The shape of a serialized value\<close>

lemma digit_chars:
  assumes "isDigitChar c"
  shows "c \<noteq> CHR ''?''" "c \<noteq> CHR ''r''" "c \<noteq> CHR ''$''" "c \<noteq> CHR '';''" "\<not> isSpaceChar c"
  using assms by (auto simp: isDigitChar_def isSpaceChar_def less_eq_char_def)

text \<open>
  A piece of text is safe when no two neighbours in it form a PHP tag and it neither
  begins nor ends with a question mark: such pieces can be put side by side.
\<close>

definition tagSafe :: "string \<Rightarrow> bool" where
  "tagSafe s = (noPair tagPair s \<and> (s \<noteq> [] \<longrightarrow> hd s \<noteq> CHR ''?'' \<and> last s \<noteq> CHR ''?''))"

lemma noPair_append:
  assumes "noPair P a" and "noPair P b" and "a = [] \<or> b = [] \<or> \<not> P (last a) (hd b)"
  shows "noPair P (a @ b)"
  using assms
proof (induction a rule: induct_list012)
  case 1
  then show ?case by simp
next
  case (2 x)
  then show ?case by (cases b) simp_all
next
  case (3 x y zs)
  then show ?case by simp
qed

lemma tagSafe_Nil: "tagSafe []"
  by (simp add: tagSafe_def)

lemma tagSafe_append:
  assumes "tagSafe a" and "tagSafe b"
  shows "tagSafe (a @ b)"
proof (cases "a = [] \<or> b = []")
  case True
  with assms show ?thesis by auto
next
  case False
  with assms have "\<not> tagPair (last a) (hd b)" by (simp add: tagSafe_def tagPair_def)
  with assms False have "noPair tagPair (a @ b)"
    by (intro noPair_append) (simp_all add: tagSafe_def)
  with assms False show ?thesis by (simp add: tagSafe_def)
qed

lemma tagSafe_no_qmark:
  assumes "CHR ''?'' \<notin> set s"
  shows "tagSafe s"
proof -
  from assms have "noPair tagPair s"
    by (induction s rule: induct_list012) (auto simp: tagPair_def)
  moreover have "s \<noteq> [] \<longrightarrow> hd s \<in> set s \<and> last s \<in> set s" by simp
  with assms have "s \<noteq> [] \<longrightarrow> hd s \<noteq> CHR ''?'' \<and> last s \<noteq> CHR ''?''" by metis
  ultimately show ?thesis by (simp add: tagSafe_def)
qed

lemma tagSafe_sepLines:
  assumes "\<And>x. x \<in> set xs \<Longrightarrow> tagSafe (g x)" and "tagSafe c" and "tagSafe d"
  shows "tagSafe (sepLines g c d xs)"
  using assms by (induction xs rule: induct_list012) (simp_all add: tagSafe_Nil tagSafe_append)

lemma tagSafe_indentation: "tagSafe (indentation n)"
proof (rule tagSafe_no_qmark)
  have "set (indentation n) \<subseteq> {CHR '' ''}" by (induction n) (auto simp: indentation_def)
  then show "CHR ''?'' \<notin> set (indentation n)" by auto
qed

lemma escS_ends:
  assumes "S \<subseteq> {squote, newline, creturn, tabchar}"
  shows "escS S x \<noteq> []" and "noPair tagPair (escS S x)"
    and "hd (escS S x) = x \<or> hd (escS S x) = bslash"
    and "last (escS S x) = x \<or> last (escS S x) \<in> {bslash, squote, CHR ''n'', CHR ''r'', CHR ''t''}"
proof -
  have "escS S x = [x] \<or> (\<exists>y \<in> {bslash, squote, CHR ''n'', CHR ''r'', CHR ''t''}. escS S x = [bslash, y])"
  proof (cases "x = bslash \<or> x \<in> S")
    case False
    then show ?thesis by (simp add: escS_def)
  next
    case True
    with assms have "x = bslash \<or> x = squote \<or> x = newline \<or> x = creturn \<or> x = tabchar" by auto
    with True show ?thesis by (auto simp: escS_def esc1_def)
  qed
  then show "escS S x \<noteq> []" and "noPair tagPair (escS S x)"
    and "hd (escS S x) = x \<or> hd (escS S x) = bslash"
    and "last (escS S x) = x \<or> last (escS S x) \<in> {bslash, squote, CHR ''n'', CHR ''r'', CHR ''t''}"
    by (auto simp: tagPair_def)
qed

lemma noPair_escS:
  assumes "S \<subseteq> {squote, newline, creturn, tabchar}" and "noPair tagPair s"
  shows "noPair tagPair (concat (map (escS S) s))"
  using assms(2)
proof (induction s rule: induct_list012)
  case 1
  then show ?case by simp
next
  case (2 x)
  from escS_ends(2) [OF assms(1), of x] show ?case by simp
next
  case (3 x y zs)
  then have ih: "noPair tagPair (concat (map (escS S) (y # zs)))" and xy: "\<not> tagPair x y" by simp_all
  note ex = escS_ends [OF assms(1), of x] and ey = escS_ends [OF assms(1), of y]
  have h: "hd (concat (map (escS S) (y # zs))) = hd (escS S y)"
    using ey(1) by simp
  have "\<not> tagPair (last (escS S x)) (hd (escS S y))"
    using ex(4) ey(3) xy by (auto simp: tagPair_def)
  with ex(2) ih h have "noPair tagPair (escS S x @ concat (map (escS S) (y # zs)))"
    by (intro noPair_append) simp_all
  then show ?case by simp
qed

lemma tagSafe_quoted:
  assumes "noPair tagPair e"
  shows "tagSafe (squote # e @ [squote])"
proof -
  have "noPair tagPair (e @ [squote])"
    using assms by (intro noPair_append) (simp_all add: tagPair_def)
  then have "noPair tagPair (squote # e @ [squote])"
    by (simp add: noPair_Cons tagPair_def)
  then show ?thesis by (simp add: tagSafe_def)
qed

lemma tagSafe_string: "plainString s \<Longrightarrow> tagSafe (squote # escapeString s @ [squote])"
  using noPair_escS [of "{squote, newline, creturn, tabchar}" s]
  by (intro tagSafe_quoted) (simp add: escapeString_blocks plainString_def)

lemma tagSafe_showNat: "tagSafe (showNat n)"
  using showNat_digits [of n] digit_chars(1)
  by (intro tagSafe_no_qmark) (auto simp: list_all_iff)

lemma tagSafe_number:
  assumes "plainNumber x"
  shows "tagSafe (numberToString x)"
proof -
  from assms obtain r ip fp where "x = Finite r"
    and n: "numberToString x = (if r < 0 then ''-'' else []) @ ip @ (if fp = [] then [] else CHR ''.'' # fp)"
    and d: "list_all isDigitChar ip" "ip \<noteq> []" "list_all isDigitChar fp"
    and "of_nat (natOfDigits ip) + of_nat (natOfDigits fp) / 10 ^ length fp = \<bar>r\<bar>"
    by (rule plainNumber_text)
  from d digit_chars(1) have "CHR ''?'' \<notin> set ip" "CHR ''?'' \<notin> set fp"
    by (auto simp: list_all_iff)
  then show ?thesis unfolding n by (intro tagSafe_no_qmark) auto
qed

lemma tagSafe_quotedKey:
  assumes "sequential \<or> canonicalKey k"
  shows "tagSafe (quotedKey sequential k)"
proof (cases sequential)
  case True
  then show ?thesis by (simp add: quotedKey_def tagSafe_Nil)
next
  case False
  with assms have ck: "canonicalKey k" by simp
  have arrow: "tagSafe '' => ''" by (rule tagSafe_no_qmark) simp
  show ?thesis
  proof (cases "isNumericKey k")
    case True
    then have "list_all isDigitChar k" by (simp add: isNumericKey_iff)
    then have "CHR ''?'' \<notin> set k" using digit_chars(1) by (auto simp: list_all_iff)
    then have "tagSafe k" by (rule tagSafe_no_qmark)
    with True False arrow show ?thesis by (simp add: quotedKey_def tagSafe_append)
  next
    case nn: False
    with ck have "noPair tagPair k" by (simp add: canonicalKey_def plainString_def)
    then have "tagSafe (squote # escapeKey k @ [squote])"
      using noPair_escS [of "{squote}" k] by (intro tagSafe_quoted) (simp add: escapeKey_blocks)
    from tagSafe_append [OF this arrow] nn False show ?thesis by (simp add: quotedKey_def)
  qed
qed

lemma tagSafe_convertToPHP: "rtValue v \<Longrightarrow> tagSafe (convertToPHP v n)"
proof (induction v arbitrary: n)
  case (PString s)
  then show ?case using tagSafe_string [of s] by (simp add: convertToPHP.simps)
next
  case (PNumber x)
  then have p: "plainNumber x" by simp
  then have "convertNumber x = numberToString x"
    by (cases x) (simp_all add: convertNumber_def plainNumber_def)
  with tagSafe_number [OF p] show ?case by (simp add: convertToPHP.simps)
next
  case (PBoolean b)
  then show ?case by (simp add: convertToPHP.simps tagSafe_no_qmark)
next
  case PNull
  then show ?case by (simp add: convertToPHP.simps tagSafe_no_qmark)
next
  case (PArray xs)
  have "tagSafe (sepLines (\<lambda>item. indentation (n + 1) @ convertToPHP item (n + 1))
                   '','' [newline] xs)"
  proof (rule tagSafe_sepLines)
    fix x assume "x \<in> set xs"
    with PArray show "tagSafe (indentation (n + 1) @ convertToPHP x (n + 1))"
      by (intro tagSafe_append tagSafe_indentation) (simp add: list_all_iff)
  qed (simp_all add: tagSafe_no_qmark)
  then have "tagSafe ((''['' @ [newline]) @ sepLines (\<lambda>item. indentation (n + 1) @ convertToPHP item (n + 1))
                   '','' [newline] xs @ indentation n @ '']'')"
    by (intro tagSafe_append tagSafe_indentation) (simp_all add: tagSafe_no_qmark)
  then show ?case by (simp add: convertToPHP_PArray tagSafe_no_qmark)
next
  case (PObject kvs)
  let ?seq = "isSequentialKeys (map fst kvs)"
  have "tagSafe (sepLines (\<lambda>(key, item). indentation (n + 1) @ quotedKey ?seq key
                               @ convertToPHP item (n + 1)) '','' [newline] kvs)"
  proof (rule tagSafe_sepLines)
    fix kv assume kv: "kv \<in> set kvs"
    obtain k v where e: "kv = (k, v)" by (cases kv)
    from kv e PObject(2) have "rtValue v" "?seq \<or> canonicalKey k" by (auto simp: list_all_iff)
    with PObject(1) [OF kv, of v "n + 1"] tagSafe_quotedKey [of ?seq k] e
    have "tagSafe (quotedKey ?seq k)" "tagSafe (convertToPHP v (n + 1))" by (simp_all add: snds.simps)
    then have "tagSafe (indentation (n + 1) @ quotedKey ?seq k @ convertToPHP v (n + 1))"
      by (intro tagSafe_append tagSafe_indentation)
    with e show "tagSafe (case kv of (key, item) \<Rightarrow> indentation (n + 1) @ quotedKey ?seq key
                               @ convertToPHP item (n + 1))"
      by simp
  qed (simp_all add: tagSafe_no_qmark)
  then have "tagSafe ((''['' @ [newline]) @ sepLines (\<lambda>(key, item). indentation (n + 1) @ quotedKey ?seq key
                               @ convertToPHP item (n + 1)) '','' [newline] kvs
                        @ indentation n @ '']'')"
    by (intro tagSafe_append tagSafe_indentation) (simp_all add: tagSafe_no_qmark)
  then show ?case by (simp add: convertToPHP_PObject tagSafe_no_qmark)
qed

definition okFirst :: "char \<Rightarrow> bool" where
  "okFirst c = (\<not> isSpaceChar c \<and> c \<noteq> CHR ''r'' \<and> c \<noteq> CHR ''$'')"

definition okLast :: "char \<Rightarrow> bool" where
  "okLast c = (\<not> isSpaceChar c \<and> c \<noteq> CHR '';'')"

lemma ends_showNat: "okFirst (hd (showNat n))" "okLast (last (showNat n))"
proof -
  from showNat_nonempty [of n] showNat_digits [of n]
  have "isDigitChar (hd (showNat n))" "isDigitChar (last (showNat n))"
    by (auto simp: list_all_iff)
  then show "okFirst (hd (showNat n))" "okLast (last (showNat n))"
    using digit_chars by (auto simp: okFirst_def okLast_def)
qed

lemma ends_number:
  assumes "plainNumber x"
  shows "numberToString x \<noteq> [] \<and> okFirst (hd (numberToString x)) \<and> okLast (last (numberToString x))"
proof -
  from assms obtain r ip fp where "x = Finite r"
    and n: "numberToString x = (if r < 0 then ''-'' else []) @ ip @ (if fp = [] then [] else CHR ''.'' # fp)"
    and d: "list_all isDigitChar ip" "ip \<noteq> []" "list_all isDigitChar fp"
    and "of_nat (natOfDigits ip) + of_nat (natOfDigits fp) / 10 ^ length fp = \<bar>r\<bar>"
    by (rule plainNumber_text)
  from d have h: "isDigitChar (hd ip)" and l: "isDigitChar (last ip)" "fp \<noteq> [] \<Longrightarrow> isDigitChar (last fp)"
    by (auto simp: list_all_iff)
  have "okFirst (hd ((if r < 0 then ''-'' else []) @ ip @ (if fp = [] then [] else CHR ''.'' # fp)))"
    using h d(2) digit_chars [of "hd ip"] by (auto simp: okFirst_def isSpaceChar_def)
  moreover have "okLast (last ((if r < 0 then ''-'' else []) @ ip @ (if fp = [] then [] else CHR ''.'' # fp)))"
    using l d(2) digit_chars [of "last ip"] digit_chars [of "last fp"] by (auto simp: okLast_def)
  ultimately show ?thesis using d(2) unfolding n by simp
qed

lemma ends_convertToPHP:
  assumes "rtValue v"
  shows "convertToPHP v n \<noteq> [] \<and> okFirst (hd (convertToPHP v n)) \<and> okLast (last (convertToPHP v n))"
proof (cases v)
  case (PString s)
  then show ?thesis by (simp add: convertToPHP.simps okFirst_def okLast_def isSpaceChar_def)
next
  case (PNumber x)
  with assms have p: "plainNumber x" by simp
  then have "convertNumber x = numberToString x"
    by (cases x) (simp_all add: convertNumber_def plainNumber_def)
  with ends_number [OF p] PNumber show ?thesis by (simp add: convertToPHP.simps)
next
  case (PBoolean b)
  then show ?thesis by (simp add: convertToPHP.simps okFirst_def okLast_def isSpaceChar_def)
next
  case PNull
  then show ?thesis by (simp add: convertToPHP.simps okFirst_def okLast_def isSpaceChar_def)
next
  case (PArray xs)
  then show ?thesis by (simp add: convertToPHP_PArray okFirst_def okLast_def isSpaceChar_def)
next
  case (PObject kvs)
  then show ?thesis by (simp add: convertToPHP_PObject okFirst_def okLast_def isSpaceChar_def)
qed

lemma cleanInput_convertToPHP: "rtValue v \<Longrightarrow> cleanInput (convertToPHP v n) = convertToPHP v n"
  using ends_convertToPHP [of v n] tagSafe_convertToPHP [of v n]
  by (intro cleanInput_id) (simp_all add: okFirst_def okLast_def tagSafe_def)
subsection \<open>Assignments to an object in the order of its keys\<close>

definition putAll :: "(string \<times> 'v) list \<Rightarrow> (string \<times> 'v) list \<Rightarrow> (string \<times> 'v) list" where
  "putAll acc kvs = fold (\<lambda>kv a. objSet a (fst kv) (snd kv)) kvs acc"

lemma putAll_simps [simp]:
  "putAll acc [] = acc"
  "putAll acc (kv # kvs) = putAll (objSet acc (fst kv) (snd kv)) kvs"
  by (simp_all add: putAll_def)

lemma insertIndexKey_append:
  "\<forall>kv \<in> set acc. isArrayIndex (fst kv) \<and> natOfDigits (fst kv) < natOfDigits k
   \<Longrightarrow> insertIndexKey k v acc = acc @ [(k, v)]"
  by (induction acc) auto

lemma objSet_append:
  assumes "\<And>a. a \<in> set (map fst acc) \<Longrightarrow> keyBefore a k" and np: "k \<noteq> ''__proto__''"
  shows "objSet acc k v = acc @ [(k, v)]"
proof -
  from assms have nk: "k \<notin> set (map fst acc)" by (auto simp: keyBefore_def)
  show ?thesis
  proof (cases "isArrayIndex k")
    case True
    have "insertIndexKey k v acc = acc @ [(k, v)]"
    proof (rule insertIndexKey_append, rule ballI)
      fix kv assume "kv \<in> set acc"
      then have "keyBefore (fst kv) k" using assms by auto
      with True show "isArrayIndex (fst kv) \<and> natOfDigits (fst kv) < natOfDigits k"
        by (simp add: keyBefore_def)
    qed
    with nk np True show ?thesis by (simp add: objSet_def)
  next
    case False
    with nk np show ?thesis by (simp add: objSet_def)
  qed
qed

lemma putAll_ordered:
  "jsOrdered (map fst (acc @ kvs)) \<Longrightarrow> ''__proto__'' \<notin> set (map fst kvs)
     \<Longrightarrow> putAll acc kvs = acc @ kvs"
proof (induction kvs arbitrary: acc)
  case Nil
  then show ?case by simp
next
  case (Cons kv kvs)
  from Cons.prems have "\<And>a. a \<in> set (map fst acc) \<Longrightarrow> keyBefore a (fst kv)"
    by (auto simp: jsOrdered_def sorted_wrt_append)
  moreover from Cons.prems have "fst kv \<noteq> ''__proto__''" by auto
  ultimately have "objSet acc (fst kv) (snd kv) = acc @ [kv]"
    using objSet_append [of acc "fst kv" "snd kv"] by simp
  with Cons.IH [of "acc @ [kv]"] Cons.prems show ?case by simp
qed

lemma showNat_not_proto: "showNat n \<noteq> ''__proto__''"
proof
  assume "showNat n = ''__proto__''"
  with showNat_digits [of n] show False
    by (simp add: isDigitChar_def less_eq_char_def)
qed

lemma canonicalKey_not_proto: "canonicalKey k \<Longrightarrow> k \<noteq> ''__proto__''"
  by (auto simp: canonicalKey_def isNumericKey_iff isDigitChar_def less_eq_char_def
      split: if_splits)

lemma jsOrdered_indices: "jsOrdered (map showNat [k..<n])"
proof -
  have "\<And>i j. i < j \<Longrightarrow> keyBefore (showNat i) (showNat j)"
    using showNat_inj by (auto simp: keyBefore_def isArrayIndex_showNat natOfDigits_showNat)
  then show ?thesis
    by (simp add: jsOrdered_def sorted_wrt_map sorted_wrt_iff_nth_less)
qed

lemma lookup_indices:
  assumes "length vs = n"
  shows "map (\<lambda>i. case map_of (zip (map showNat [0..<n]) vs) (showNat i) of
                    Some v \<Rightarrow> v | None \<Rightarrow> d) [0..<n] = vs"
proof (rule nth_equalityI)
  show "length (map (\<lambda>i. case map_of (zip (map showNat [0..<n]) vs) (showNat i) of
                    Some v \<Rightarrow> v | None \<Rightarrow> d) [0..<n]) = length vs"
    using assms by simp
next
  fix i assume "i < length (map (\<lambda>i. case map_of (zip (map showNat [0..<n]) vs) (showNat i) of
                    Some v \<Rightarrow> v | None \<Rightarrow> d) [0..<n])"
  then have i: "i < n" by simp
  have dist: "distinct (map showNat [0..<n])"
    using showNat_inj by (auto simp: distinct_map intro: inj_onI)
  have "map_of (zip (map showNat [0..<n]) vs) (map showNat [0..<n] ! i) = Some (vs ! i)"
    by (rule map_of_zip_nth) (use assms i dist in simp_all)
  with i show "map (\<lambda>i. case map_of (zip (map showNat [0..<n]) vs) (showNat i) of
                    Some v \<Rightarrow> v | None \<Rightarrow> d) [0..<n] ! i = vs ! i"
    by simp
qed

subsection \<open>Parsing the tokens of a serialized value\<close>

lemma drop_Cons_facts:
  assumes "drop p ts = t # r"
  shows "p < length ts" "ts ! p = t" "drop (Suc p) ts = r" "tokenAt ts p = Some t"
proof -
  show p: "p < length ts" using assms by (cases "p < length ts") auto
  from assms show t: "ts ! p = t" by (metis nth_via_drop)
  from assms show "drop (Suc p) ts = r" by (metis drop_Suc drop_tl list.sel(3) tl_drop)
  from p t show "tokenAt ts p = Some t" by (simp add: tokenAt_def)
qed

lemma drop_append_facts:
  assumes "drop p ts = a @ r"
  shows "drop (p + length a) ts = r"
proof -
  have "drop (p + length a) ts = drop (length a) (drop p ts)" by (simp add: add.commute)
  with assms show ?thesis by simp
qed

lemma sepLines_first:
  assumes "\<And>x. \<exists>t r. g x = t # r \<and> P t" and "P e"
  shows "\<exists>t r. sepLines g c d xs @ e # tail = t # r \<and> P t"
proof (induction xs rule: induct_list012)
  case 1
  with assms(2) show ?case by simp
next
  case (2 x)
  with assms(1) [of x] show ?case by auto
next
  case (3 x y zs)
  with assms(1) [of x] show ?case by auto
qed

lemma toks_first: "\<exists>t r. toks x = t # r \<and> t \<noteq> ARROW \<and> t \<noteq> RBRACKET \<and> t \<noteq> RPAREN"
  by (cases x) simp_all

lemma toks_shape:
  "(\<exists>t. toks v = [t] \<and> t \<noteq> RBRACKET \<and> t \<noteq> RPAREN \<and> t \<noteq> ARROW)
   \<or> (\<exists>t r. toks v = LBRACKET # t # r \<and> t \<noteq> ARROW)"
proof (cases v)
  case (PArray xs)
  have "\<exists>t r. sepLines toks [COMMA] [] xs @ RBRACKET # [] = t # r \<and> t \<noteq> ARROW"
  proof (rule sepLines_first [where P = "\<lambda>t. t \<noteq> ARROW"])
    fix x show "\<exists>t r. toks x = t # r \<and> t \<noteq> ARROW" using toks_first [of x] by blast
  qed simp
  with PArray show ?thesis by auto
next
  case (PObject kvs)
  let ?g = "\<lambda>kv. keyToks (isSequentialKeys (map fst kvs)) (fst kv) @ toks (snd kv)"
  have g: "\<And>kv. \<exists>t r. ?g kv = t # r \<and> t \<noteq> ARROW"
  proof -
    fix kv :: "string \<times> PHPValue"
    from toks_first [of "snd kv"] show "\<exists>t r. ?g kv = t # r \<and> t \<noteq> ARROW"
      by (auto simp: keyToks_def)
  qed
  have "\<exists>t r. sepLines ?g [COMMA] [] kvs @ RBRACKET # [] = t # r \<and> t \<noteq> ARROW"
    by (rule sepLines_first [where P = "\<lambda>t. t \<noteq> ARROW"]) (use g in auto)
  with PObject show ?thesis by auto
qed simp_all

lemma toks_two:
  assumes "t \<noteq> ARROW"
  shows "\<exists>t0 t1 r0. toks x @ t # r = t0 # t1 # r0 \<and> t0 \<noteq> RBRACKET \<and> t0 \<noteq> RPAREN \<and> t1 \<noteq> ARROW"
  using toks_shape [of x] assms by auto

lemma toks_length: "0 < length (toks x)"
  using toks_first [of x] by auto

lemma loop_end:
  assumes "drop p ts = RBRACKET # post"
  shows "parseElements ts p acc b k = Inr (finishArray ts p acc b k)"
  using drop_Cons_facts(4) [OF assms]
  by (subst parseElements.simps) (simp add: isCloser_def)

lemma finishArray_list:
  assumes "drop p ts = RBRACKET # post"
  shows "finishArray ts p acc True k =
         (PArray (map (\<lambda>i. case map_of acc (showNat i) of Some v \<Rightarrow> v | None \<Rightarrow> PNull) [0..<k]),
          p + 1)"
  using drop_Cons_facts(4) [OF assms] by (simp add: finishArray_def isCloser_def)

lemma finishArray_map:
  assumes "drop p ts = RBRACKET # post"
  shows "finishArray ts p acc False k = (PObject acc, p + 1)"
  using drop_Cons_facts(4) [OF assms] by (simp add: finishArray_def isCloser_def)

lemma unkeyed_step:
  assumes d: "drop p ts = toks x @ t # r"
    and t: "t = COMMA \<or> t = RBRACKET"
    and pv: "parseValue ts p = Inr (collapse x, p + length (toks x))"
  shows "parseElements ts p acc True k =
         parseElements ts (if t = COMMA then p + length (toks x) + 1 else p + length (toks x))
           (objSet acc (showNat k) (collapse x)) True (k + 1)"
proof -
  from t have "t \<noteq> ARROW" by auto
  from toks_two [OF this, of x r] obtain t0 t1 r0 where
    two: "toks x @ t # r = t0 # t1 # r0" and t0: "t0 \<noteq> RBRACKET" "t0 \<noteq> RPAREN" and t1: "t1 \<noteq> ARROW"
    by blast
  from d two have d0: "drop p ts = t0 # t1 # r0" by simp
  note f0 = drop_Cons_facts [OF d0]
  note f1 = drop_Cons_facts [OF f0(3)]
  have c1: "p < length ts \<and> \<not> isCloser ts p" using f0 t0 by (simp add: isCloser_def)
  have c2: "\<not> (p + 1 < length ts \<and> tokenAt ts (p + 1) = Some ARROW)" using f1 t1 by simp
  have at: "tokenAt ts (p + length (toks x)) = Some t"
    using drop_Cons_facts(4) [OF drop_append_facts [OF d]] .
  have gt: "\<not> p + length (toks x) \<le> p" using toks_length [of x] by simp
  show ?thesis
    by (subst parseElements.simps) (simp only: c1 c2 pv at gt if_True if_False sum.case prod.case
        simp_thms option.inject)
qed

lemma keyToks_parse:
  assumes "canonicalKey key"
  shows "\<exists>kt kv. keyToks False key = [kt, ARROW] \<and> kt \<noteq> RBRACKET \<and> kt \<noteq> RPAREN
           \<and> (\<forall>ts p. tokenAt ts p = Some kt \<longrightarrow> parseValue ts p = Inr (kv, p + 1))
           \<and> keyOf kv = key"
proof (cases "isNumericKey key")
  case True
  let ?n = "natOfDigits key"
  have "numberToString (Finite (of_int (int ?n))) = showNat ?n"
    by (simp only: numberToString_int) simp
  then have "keyOf (PNumber (Finite (of_nat ?n))) = key"
    using assms True by (simp add: keyOf_def canonicalKey_def)
  moreover have "\<forall>ts p. tokenAt ts p = Some (NUMBER (Finite (of_nat ?n)))
                   \<longrightarrow> parseValue ts p = Inr (PNumber (Finite (of_nat ?n)), p + 1)"
    by (simp add: parseValue.simps)
  ultimately show ?thesis using True unfolding keyToks_def by (intro exI conjI) auto
next
  case False
  have "keyOf (PString key) = key" by (simp add: keyOf_def)
  moreover have "\<forall>ts p. tokenAt ts p = Some (STRING key squote)
                   \<longrightarrow> parseValue ts p = Inr (PString key, p + 1)"
    by (simp add: parseValue.simps)
  ultimately show ?thesis using False unfolding keyToks_def by (intro exI conjI) auto
qed

lemma keyed_step:
  assumes d: "drop p ts = keyToks False key @ toks x @ t # r"
    and key: "canonicalKey key"
    and t: "t = COMMA \<or> t = RBRACKET"
    and pv: "parseValue ts (p + 2) = Inr (collapse x, p + 2 + length (toks x))"
  shows "parseElements ts p acc b k =
         parseElements ts
           (if t = COMMA then p + 2 + length (toks x) + 1 else p + 2 + length (toks x))
           (objSet acc key (collapse x)) False k"
proof -
  from keyToks_parse [OF key] obtain kt kv where
    kt: "keyToks False key = [kt, ARROW]" "kt \<noteq> RBRACKET" "kt \<noteq> RPAREN"
    and pk: "\<And>ts p. tokenAt ts p = Some kt \<Longrightarrow> parseValue ts p = Inr (kv, p + 1)"
    and kv: "keyOf kv = key"
    by blast
  from d kt have d0: "drop p ts = kt # ARROW # toks x @ t # r" by simp
  note f0 = drop_Cons_facts [OF d0]
  note f1 = drop_Cons_facts [OF f0(3)]
  have c1: "p < length ts \<and> \<not> isCloser ts p" using f0 kt by (simp add: isCloser_def)
  have c2: "p + 1 < length ts \<and> tokenAt ts (p + 1) = Some ARROW" using f1 by simp
  have pk': "parseValue ts p = Inr (kv, p + 1)" using pk f0(4) by simp
  have d2: "drop (p + 2) ts = toks x @ t # r" using f1(3) by simp
  have at: "tokenAt ts (p + 2 + length (toks x)) = Some t"
    using drop_Cons_facts(4) [OF drop_append_facts [OF d2]] .
  have ge: "\<not> p + 1 < p" by simp
  have gt: "\<not> p + 2 + length (toks x) \<le> p" by simp
  have two: "p + 1 + 1 = p + 2" by simp
  show ?thesis
    by (subst parseElements.simps) (simp only: c1 c2 pk' two pv at ge gt kv if_True if_False
        sum.case prod.case simp_thms option.inject)
qed

text \<open>The elements of a list under the keys \<open>k, k + 1, ...\<close>.\<close>

fun indexed :: "nat \<Rightarrow> 'v list \<Rightarrow> (string \<times> 'v) list" where
  "indexed k [] = []"
| "indexed k (v # vs) = (showNat k, v) # indexed (k + 1) vs"

lemma indexed_zip: "indexed k vs = zip (map showNat [k..<k + length vs]) vs"
proof (induction vs arbitrary: k)
  case Nil
  then show ?case by simp
next
  case (Cons v vs)
  have "[k..<k + length (v # vs)] = k # [k + 1..<k + 1 + length vs]"
    by (simp add: upt_conv_Cons del: upt_Suc)
  with Cons [of "k + 1"] show ?case by (simp del: upt_Suc)
qed

lemma unkeyed_loop:
  assumes "\<And>a q r. a \<in> set xs \<Longrightarrow> drop q ts = toks (f a) @ r
             \<Longrightarrow> parseValue ts q = Inr (collapse (f a), q + length (toks (f a)))"
    and "drop p ts = sepLines (\<lambda>a. toks (f a)) [COMMA] [] xs @ RBRACKET # post"
  shows "parseElements ts p acc True k =
         Inr (finishArray ts (p + length (sepLines (\<lambda>a. toks (f a)) [COMMA] [] xs))
                (putAll acc (indexed k (map (\<lambda>a. collapse (f a)) xs)))
                True (k + length xs))"
  using assms
proof (induction xs arbitrary: p acc k rule: induct_list012)
  case 1
  then show ?case using loop_end [of p ts post acc True k] by simp
next
  case (2 x)
  from 2(2) have d: "drop p ts = toks (f x) @ RBRACKET # post" by simp
  have pv: "parseValue ts p = Inr (collapse (f x), p + length (toks (f x)))"
    by (rule 2(1) [OF _ d]) simp
  have "parseElements ts p acc True k =
        parseElements ts (p + length (toks (f x))) (objSet acc (showNat k) (collapse (f x))) True (k + 1)"
    using unkeyed_step [OF d _ pv, of acc k] by simp
  also have "\<dots> = Inr (finishArray ts (p + length (toks (f x)))
                        (objSet acc (showNat k) (collapse (f x))) True (k + 1))"
    by (rule loop_end [OF drop_append_facts [OF d]])
  finally show ?case by simp
next
  case (3 x y zs)
  let ?rest = "sepLines (\<lambda>a. toks (f a)) [COMMA] [] (y # zs)"
  from 3(4) have d: "drop p ts = toks (f x) @ COMMA # ?rest @ RBRACKET # post" by simp
  have pv: "parseValue ts p = Inr (collapse (f x), p + length (toks (f x)))"
    by (rule 3(3) [OF _ d]) simp
  have d': "drop (p + length (toks (f x)) + 1) ts = ?rest @ RBRACKET # post"
    using drop_Cons_facts(3) [OF drop_append_facts [OF d]] by simp
  have "parseElements ts p acc True k =
        parseElements ts (p + length (toks (f x)) + 1)
          (objSet acc (showNat k) (collapse (f x))) True (k + 1)"
    using unkeyed_step [OF d _ pv, of acc k] by simp
  also have "\<dots> = Inr (finishArray ts (p + length (toks (f x)) + 1 + length ?rest)
       (putAll (objSet acc (showNat k) (collapse (f x)))
          (indexed (k + 1) (map (\<lambda>a. collapse (f a)) (y # zs))))
       True (k + 1 + length (y # zs)))"
    by (rule 3(2) [OF _ d']) (use 3(3) in auto)
  finally show ?case by (simp add: add.assoc)
qed

lemma keyed_loop:
  assumes "\<And>a q r. a \<in> set kvs \<Longrightarrow> drop q ts = toks (snd a) @ r
             \<Longrightarrow> parseValue ts q = Inr (collapse (snd a), q + length (toks (snd a)))"
    and "list_all canonicalKey (map fst kvs)"
    and "drop p ts = sepLines (\<lambda>kv. keyToks False (fst kv) @ toks (snd kv)) [COMMA] [] kvs
                     @ RBRACKET # post"
  shows "parseElements ts p acc b k =
         Inr (finishArray ts
                (p + length (sepLines (\<lambda>kv. keyToks False (fst kv) @ toks (snd kv)) [COMMA] [] kvs))
                (putAll acc (map (\<lambda>kv. (fst kv, collapse (snd kv))) kvs))
                (b \<and> kvs = []) k)"
  using assms
proof (induction kvs arbitrary: p acc b rule: induct_list012)
  case 1
  then show ?case using loop_end [of p ts post acc b k] by simp
next
  case (2 x)
  from 2(3) have d: "drop p ts = keyToks False (fst x) @ toks (snd x) @ RBRACKET # post" by simp
  from 2(2) have key: "canonicalKey (fst x)" by simp
  have len: "length (keyToks False (fst x)) = 2" using keyToks_parse [OF key] by auto
  have d2: "drop (p + 2) ts = toks (snd x) @ RBRACKET # post"
    using drop_append_facts [OF d] len by simp
  have pv: "parseValue ts (p + 2) = Inr (collapse (snd x), p + 2 + length (toks (snd x)))"
    by (rule 2(1) [OF _ d2]) simp
  have "parseElements ts p acc b k =
        parseElements ts (p + 2 + length (toks (snd x))) (objSet acc (fst x) (collapse (snd x))) False k"
    using keyed_step [OF d key _ pv, of acc b k] by simp
  also have "\<dots> = Inr (finishArray ts (p + 2 + length (toks (snd x)))
                        (objSet acc (fst x) (collapse (snd x))) False k)"
    by (rule loop_end [OF drop_append_facts [OF d2]])
  finally show ?case using len by (simp add: add.assoc)
next
  case (3 x y zs)
  let ?rest = "sepLines (\<lambda>kv. keyToks False (fst kv) @ toks (snd kv)) [COMMA] [] (y # zs)"
  from 3(5) have d: "drop p ts = keyToks False (fst x) @ toks (snd x) @ COMMA # ?rest @ RBRACKET # post"
    by simp
  from 3(4) have key: "canonicalKey (fst x)" and keys: "list_all canonicalKey (map fst (y # zs))"
    by simp_all
  have len: "length (keyToks False (fst x)) = 2" using keyToks_parse [OF key] by auto
  have d2: "drop (p + 2) ts = toks (snd x) @ COMMA # ?rest @ RBRACKET # post"
    using drop_append_facts [OF d] len by simp
  have pv: "parseValue ts (p + 2) = Inr (collapse (snd x), p + 2 + length (toks (snd x)))"
    by (rule 3(3) [OF _ d2]) simp
  have d': "drop (p + 2 + length (toks (snd x)) + 1) ts = ?rest @ RBRACKET # post"
    using drop_Cons_facts(3) [OF drop_append_facts [OF d2]] by simp
  have "parseElements ts p acc b k =
        parseElements ts (p + 2 + length (toks (snd x)) + 1)
          (objSet acc (fst x) (collapse (snd x))) False k"
    using keyed_step [OF d key _ pv, of acc b k] by simp
  also have "\<dots> = Inr (finishArray ts (p + 2 + length (toks (snd x)) + 1 + length ?rest)
       (putAll (objSet acc (fst x) (collapse (snd x)))
          (map (\<lambda>kv. (fst kv, collapse (snd kv))) (y # zs)))
       (False \<and> y # zs = []) k)"
    by (rule 3(2) [OF _ keys d']) (use 3(3) in auto)
  finally show ?case using len by (simp add: add.assoc)
qed

lemma unkeyed_array:
  assumes elems: "\<And>a q r. a \<in> set xs \<Longrightarrow> drop q ts = toks (f a) @ r
             \<Longrightarrow> parseValue ts q = Inr (collapse (f a), q + length (toks (f a)))"
    and d: "drop p ts = LBRACKET # sepLines (\<lambda>a. toks (f a)) [COMMA] [] xs @ RBRACKET # post"
  shows "parseValue ts p =
         Inr (PArray (map (\<lambda>a. collapse (f a)) xs),
              p + (length (sepLines (\<lambda>a. toks (f a)) [COMMA] [] xs) + 2))"
proof -
  let ?L = "length (sepLines (\<lambda>a. toks (f a)) [COMMA] [] xs)"
  let ?vs = "map (\<lambda>a. collapse (f a)) xs"
  note f0 = drop_Cons_facts [OF d]
  have d1: "drop (p + 1) ts = sepLines (\<lambda>a. toks (f a)) [COMMA] [] xs @ RBRACKET # post"
    using f0(3) by simp
  have "parseValue ts p = parseElements ts (p + 1) [] True 0"
    using f0(4) by (simp add: parseValue.simps parseArray.simps)
  also have "\<dots> = Inr (finishArray ts (p + 1 + ?L) (putAll [] (indexed 0 ?vs)) True (0 + length xs))"
    by (rule unkeyed_loop [OF elems d1])
  also have "putAll [] (indexed 0 ?vs) = zip (map showNat [0..<length xs]) ?vs"
  proof -
    have "''__proto__'' \<notin> set (map fst (indexed 0 ?vs))"
    proof
      assume "''__proto__'' \<in> set (map fst (indexed 0 ?vs))"
      then obtain i where "showNat i = ''__proto__''" by (auto simp: indexed_zip)
      with showNat_not_proto [of i] show False by simp
    qed
    with putAll_ordered [of "[]" "indexed 0 ?vs"] jsOrdered_indices [of 0 "length xs"]
    show ?thesis by (simp add: indexed_zip)
  qed
  also have "finishArray ts (p + 1 + ?L) (zip (map showNat [0..<length xs]) ?vs) True (0 + length xs)
           = (PArray ?vs, p + 1 + ?L + 1)"
    using finishArray_list [OF drop_append_facts [OF d1], of "zip (map showNat [0..<length xs]) ?vs" "length xs"]
      lookup_indices [of ?vs "length xs" PNull]
    by simp
  finally show ?thesis by simp
qed

lemma keyed_map:
  assumes elems: "\<And>a q r. a \<in> set kvs \<Longrightarrow> drop q ts = toks (snd a) @ r
             \<Longrightarrow> parseValue ts q = Inr (collapse (snd a), q + length (toks (snd a)))"
    and keys: "list_all canonicalKey (map fst kvs)" "jsOrdered (map fst kvs)" "kvs \<noteq> []"
    and d: "drop p ts = LBRACKET # sepLines (\<lambda>kv. keyToks False (fst kv) @ toks (snd kv)) [COMMA] [] kvs
                        @ RBRACKET # post"
  shows "parseValue ts p =
         Inr (PObject (map (\<lambda>kv. (fst kv, collapse (snd kv))) kvs),
              p + (length (sepLines (\<lambda>kv. keyToks False (fst kv) @ toks (snd kv)) [COMMA] [] kvs) + 2))"
proof -
  let ?g = "\<lambda>kv. keyToks False (fst kv) @ toks (snd kv)"
  let ?L = "length (sepLines ?g [COMMA] [] kvs)"
  let ?vs = "map (\<lambda>kv. (fst kv, collapse (snd kv))) kvs"
  note f0 = drop_Cons_facts [OF d]
  have d1: "drop (p + 1) ts = sepLines ?g [COMMA] [] kvs @ RBRACKET # post"
    using f0(3) by simp
  have "parseValue ts p = parseElements ts (p + 1) [] True 0"
    using f0(4) by (simp add: parseValue.simps parseArray.simps)
  also have "\<dots> = Inr (finishArray ts (p + 1 + ?L) (putAll [] ?vs) (True \<and> kvs = []) 0)"
    by (rule keyed_loop [OF elems keys(1) d1])
  also have "putAll [] ?vs = ?vs"
  proof -
    have "''__proto__'' \<notin> set (map fst ?vs)"
    proof
      assume "''__proto__'' \<in> set (map fst ?vs)"
      then obtain kv where "kv \<in> set kvs" "fst kv = ''__proto__''" by auto
      with keys(1) have "canonicalKey ''__proto__''" by (auto simp: list_all_iff)
      with canonicalKey_not_proto [of "''__proto__''"] show False by simp
    qed
    with putAll_ordered [of "[]" ?vs] keys(2) show ?thesis by (simp add: comp_def)
  qed
  also have "finishArray ts (p + 1 + ?L) ?vs (True \<and> kvs = []) 0 = (PObject ?vs, p + 1 + ?L + 1)"
    using finishArray_map [OF drop_append_facts [OF d1], of ?vs 0] keys(3) by simp
  finally show ?thesis by simp
qed

lemma isSequentialKeys_Nil: "isSequentialKeys []"
  by (simp add: isSequentialKeys_def)

lemma parse_value:
  "rtValue v \<Longrightarrow> drop p ts = toks v @ r
     \<Longrightarrow> parseValue ts p = Inr (collapse v, p + length (toks v))"
proof (induction v arbitrary: p r)
  case (PString s)
  from drop_Cons_facts(4) [of p ts "STRING s squote" r] PString show ?case
    by (simp add: parseValue.simps)
next
  case (PNumber n)
  from drop_Cons_facts(4) [of p ts "NUMBER n" r] PNumber show ?case
    by (simp add: parseValue.simps)
next
  case (PBoolean b)
  from drop_Cons_facts(4) [of p ts "LITERAL (if b then ''true'' else ''false'')" r] PBoolean
  show ?case by (simp add: parseValue.simps)
next
  case PNull
  from drop_Cons_facts(4) [of p ts "LITERAL ''null''" r] PNull show ?case
    by (simp add: parseValue.simps)
next
  case (PArray xs)
  have "parseValue ts p =
        Inr (PArray (map (\<lambda>a. collapse a) xs), p + (length (sepLines (\<lambda>a. toks a) [COMMA] [] xs) + 2))"
  proof (rule unkeyed_array [where f = "\<lambda>a. a"])
    fix a q r' assume "a \<in> set xs" "drop q ts = toks a @ r'"
    with PArray.IH [of a q r'] PArray.prems(1)
    show "parseValue ts q = Inr (collapse a, q + length (toks a))"
      by (simp add: list_all_iff)
  next
    from PArray.prems(2)
    show "drop p ts = LBRACKET # sepLines (\<lambda>a. toks a) [COMMA] [] xs @ RBRACKET # r" by simp
  qed
  then show ?case by simp
next
  case (PObject kvs)
  have elems: "\<And>a q r'. a \<in> set kvs \<Longrightarrow> drop q ts = toks (snd a) @ r'
             \<Longrightarrow> parseValue ts q = Inr (collapse (snd a), q + length (toks (snd a)))"
  proof -
    fix a q r' assume a: "a \<in> set kvs" and "drop q ts = toks (snd a) @ r'"
    moreover from a PObject.prems(1) have "rtValue (snd a)" by (simp add: list_all_iff)
    moreover have "snd a \<in> Basic_BNFs.snds a" by (cases a) simp
    ultimately show "parseValue ts q = Inr (collapse (snd a), q + length (toks (snd a)))"
      using PObject.IH [of a "snd a" q r'] by simp
  qed
  show ?case
  proof (cases "isSequentialKeys (map fst kvs)")
    case True
    with PObject.prems(2)
    have d: "drop p ts = LBRACKET # sepLines (\<lambda>a. toks (snd a)) [COMMA] [] kvs @ RBRACKET # r"
      by (simp add: keyToks_def)
    from unkeyed_array [where f = snd, OF elems d] True show ?thesis
      by (simp add: keyToks_def)
  next
    case False
    with PObject.prems(1) have keys: "list_all canonicalKey (map fst kvs)" "jsOrdered (map fst kvs)"
      by simp_all
    from False have ne: "kvs \<noteq> []" using isSequentialKeys_Nil by auto
    from False PObject.prems(2)
    have d: "drop p ts = LBRACKET # sepLines (\<lambda>kv. keyToks False (fst kv) @ toks (snd kv)) [COMMA] [] kvs
                        @ RBRACKET # r"
      by simp
    from keyed_map [OF elems keys ne d] False show ?thesis by simp
  qed
qed

lemma smartParse_convertToPHP:
  assumes "rtValue v"
  shows "smartParsePHPArray (convertToPHP v 0) = Inr (collapse v)"
proof -
  have "delimited []" by (simp add: delimited_simps)
  from tokenize_value [OF assms this, of 0]
  have t: "tokenize (convertToPHP v 0) = toks v" by (simp add: tokenize.simps)
  have "parseValue (toks v) 0 = Inr (collapse v, 0 + length (toks v))"
    by (rule parse_value [OF assms, of 0 _ "[]"]) simp
  with t show ?thesis by (simp add: smartParsePHPArray_def parseTokens_def)
qed

lemma parsePHPArray_convertToPHP:
  assumes "rtValue v"
  shows "parsePHPArray jsonParse (convertToPHP v 0) = Inr (collapse v)"
  using smartParse_convertToPHP [OF assms] cleanInput_convertToPHP [OF assms, of 0]
  by (simp add: parsePHPArray_def)

subsection \<open>The parser always moves forward\<close>

lemma finishArray_pos: "finishArray ts p acc b k = (v, q) \<Longrightarrow> p \<le> q"
  by (auto simp: finishArray_def Let_def split: if_splits)

lemma parse_progress:
  "case parseValue ts p of Inl e \<Rightarrow> e \<noteq> NoProgress | Inr (v, q) \<Rightarrow> p < q"
  "case parseArray ts p of Inl e \<Rightarrow> e \<noteq> NoProgress
     | Inr (v, q) \<Rightarrow> p \<le> q \<and> (isOpener ts p \<longrightarrow> p < q)"
  "case parseElements ts p acc b k of Inl e \<Rightarrow> e \<noteq> NoProgress | Inr (v, q) \<Rightarrow> p \<le> q"
proof (induction ts p and ts p and ts p acc b k rule: parseValue_parseArray_parseElements.induct)
  case (1 tokens pos)
  show ?case
  proof (cases "tokenAt tokens pos")
    case None
    then show ?thesis by (subst parseValue.simps) simp
  next
    case (Some t)
    show ?thesis
    proof (cases "t = ARRAY \<or> t = LBRACKET")
      case True
      with Some 1 have ih: "case parseArray tokens pos of Inl e \<Rightarrow> e \<noteq> NoProgress
          | Inr (v, q) \<Rightarrow> pos \<le> q \<and> (isOpener tokens pos \<longrightarrow> pos < q)"
        by blast
      from True Some have op: "isOpener tokens pos" by (auto simp: isOpener_def)
      from True Some have "parseValue tokens pos = parseArray tokens pos"
        by (subst parseValue.simps) auto
      with ih op show ?thesis by (auto split: sum.splits)
    next
      case False
      with Some show ?thesis by (subst parseValue.simps) (cases t; simp)
    qed
  qed
next
  case (2 tokens pos)
  define pos1 where "pos1 =
           (if tokenAt tokens pos = Some ARRAY
            then if tokenAt tokens (pos + 1) = Some LPAREN then pos + 2
                 else pos + 1
            else if tokenAt tokens pos = Some LBRACKET then pos + 1
                 else pos)"
  from 2 [OF pos1_def]
  have ih: "case parseElements tokens pos1 [] True 0 of Inl e \<Rightarrow> e \<noteq> NoProgress
              | Inr (v, q) \<Rightarrow> pos1 \<le> q" .
  have ge: "pos \<le> pos1" "isOpener tokens pos \<Longrightarrow> pos < pos1"
    by (auto simp: pos1_def isOpener_def)
  have "parseArray tokens pos = parseElements tokens pos1 [] True 0"
    by (subst parseArray.simps) (simp add: pos1_def)
  with ih ge show ?case by (auto split: sum.splits)
next
  case (3 tokens pos result isIndexedArray index)
  show ?case
  proof (cases "pos < length tokens \<and> \<not> isCloser tokens pos")
    case False
    then have "parseElements tokens pos result isIndexedArray index
               = Inr (finishArray tokens pos result isIndexedArray index)"
      by (subst parseElements.simps) (simp only: if_False)
    then show ?thesis using finishArray_pos by (auto split: prod.splits)
  next
    case c1: True
    show ?thesis
    proof (cases "pos + 1 < length tokens \<and> tokenAt tokens (pos + 1) = Some ARROW")
      case c2: True
      from 3(1) [OF c1 c2]
      have ih1: "case parseValue tokens pos of Inl e \<Rightarrow> e \<noteq> NoProgress | Inr (v, q) \<Rightarrow> pos < q" .
      show ?thesis
      proof (cases "parseValue tokens pos")
        case (Inl e)
        have "parseElements tokens pos result isIndexedArray index = Inl e"
          by (subst parseElements.simps)
             (simp only: c1 c2 Inl simp_thms if_True if_False sum.case)
        with ih1 Inl show ?thesis by simp
      next
        case (Inr b)
        obtain x y where b: "(x, y) = b" by (cases b) simp
        with Inr ih1 have y: "pos < y" by auto
        then have ny: "\<not> y < pos" by simp
        from 3(2) [OF c1 c2 Inr b ny]
        have ih2: "case parseValue tokens (y + 1) of Inl e \<Rightarrow> e \<noteq> NoProgress
                     | Inr (v, q) \<Rightarrow> y + 1 < q" .
        show ?thesis
        proof (cases "parseValue tokens (y + 1)")
          case (Inl e)
          have "parseElements tokens pos result isIndexedArray index = Inl e"
            by (subst parseElements.simps)
               (simp only: c1 c2 Inr b [symmetric] ny Inl simp_thms if_True if_False sum.case
                  prod.case)
          with ih2 Inl show ?thesis by simp
        next
          case Inr2: (Inr ba)
          obtain xa ya where ba: "(xa, ya) = ba" by (cases ba) simp
          with Inr2 ih2 have ya: "y + 1 < ya" by auto
          with y have nya: "\<not> ya \<le> pos" by simp
          define pos' where "pos' = (if tokenAt tokens ya = Some COMMA then ya + 1 else ya)"
          from 3(3) [OF c1 c2 Inr b ny Inr2 ba nya]
          have ih3: "case parseElements tokens pos' (objSet result (keyOf x) xa) False index of
                       Inl e \<Rightarrow> e \<noteq> NoProgress | Inr (v, q) \<Rightarrow> pos' \<le> q"
            by (simp only: pos'_def)
          have "pos \<le> pos'" using y ya by (simp add: pos'_def)
          moreover have "parseElements tokens pos result isIndexedArray index
                = parseElements tokens pos' (objSet result (keyOf x) xa) False index"
            by (subst parseElements.simps)
               (simp only: c1 c2 Inr b [symmetric] ny Inr2 ba [symmetric] nya pos'_def
                  simp_thms if_True if_False sum.case prod.case)
          ultimately show ?thesis using ih3 by (auto split: sum.splits)
        qed
      qed
    next
      case c2: False
      from 3(4) [OF c1 c2]
      have ih1: "case parseValue tokens pos of Inl e \<Rightarrow> e \<noteq> NoProgress | Inr (v, q) \<Rightarrow> pos < q" .
      show ?thesis
      proof (cases "parseValue tokens pos")
        case (Inl e)
        have "parseElements tokens pos result isIndexedArray index = Inl e"
          by (subst parseElements.simps)
             (simp only: c1 c2 Inl simp_thms if_True if_False sum.case)
        with ih1 Inl show ?thesis by simp
      next
        case (Inr b)
        obtain x y where b: "(x, y) = b" by (cases b) simp
        with Inr ih1 have y: "pos < y" by auto
        then have ny: "\<not> y \<le> pos" by simp
        define pos' where "pos' = (if tokenAt tokens y = Some COMMA then y + 1 else y)"
        from 3(5) [OF c1 c2 Inr b ny]
        have ih3: "case parseElements tokens pos' (objSet result (showNat index) x) isIndexedArray
                          (if isIndexedArray then index + 1 else index) of
                     Inl e \<Rightarrow> e \<noteq> NoProgress | Inr (v, q) \<Rightarrow> pos' \<le> q"
          by (simp only: pos'_def)
        have "pos \<le> pos'" using y by (simp add: pos'_def)
        moreover have "parseElements tokens pos result isIndexedArray index
              = parseElements tokens pos' (objSet result (showNat index) x) isIndexedArray
                          (if isIndexedArray then index + 1 else index)"
          by (subst parseElements.simps)
             (simp only: c1 c2 Inr b [symmetric] ny pos'_def
                simp_thms if_True if_False sum.case prod.case)
        ultimately show ?thesis using ih3 by (auto split: sum.splits)
      qed
    qed
  qed
qed

text \<open>The checks of the cursor in \<open>parseElements\<close> never fail.\<close>

lemma no_NoProgress:
  "parseValue ts p \<noteq> Inl NoProgress"
  "parseArray ts p \<noteq> Inl NoProgress"
  "parseElements ts p acc b k \<noteq> Inl NoProgress"
  using parse_progress(1) [where ts = ts and p = p] parse_progress(2) [where ts = ts and p = p]
    parse_progress(3) [where ts = ts and p = p and acc = acc and b = b and k = k]
  by (auto split: sum.splits)

section \<open>Properties of the JSON differ\<close>

lemma fold_fixed:
  "(\<And>x ds. x \<in> set xs \<Longrightarrow> f x ds = ds) \<Longrightarrow> fold f xs ds0 = ds0"
  by (induction xs) auto

lemma fold_preserves:
  "(\<And>x ds. x \<in> set xs \<Longrightarrow> I ds \<Longrightarrow> I (f x ds)) \<Longrightarrow> I ds0 \<Longrightarrow> I (fold f xs ds0)"
  by (induction xs arbitrary: ds0) auto

lemma checkKeyOrder_same: "checkKeyOrder ks ks p ds = ds"
  by (simp add: checkKeyOrder_def Let_def fold_fixed)

lemma numStrictEq_refl: "n \<noteq> NaN \<Longrightarrow> numStrictEq n n"
  by (cases n) auto

lemma isEqual_prim_refl:
  "nanFree a \<Longrightarrow> \<not> isObjectTyped a \<Longrightarrow> isEqual a a"
  by (cases a) (auto simp: isEqual.simps numStrictEq_refl)

lemma compareValues_prim:
  "\<not> isObjectTyped a \<Longrightarrow> isEqual a a \<Longrightarrow> compareValues a a p mode ds = ds"
  by (cases a) (simp_all add: compareValues.simps)

lemma compare_same:
  "oldVal = newVal \<Longrightarrow> nanFree oldVal \<Longrightarrow> compareValues oldVal newVal p mode ds0 = ds0"
  "oldObj = newObj \<Longrightarrow> list_all (\<lambda>kv. nanFree (snd kv)) oldObj \<Longrightarrow>
     compareObjects oldObj newObj basePath mode ds1 = ds1"
  "oldArr = newArr \<Longrightarrow> list_all nanFree oldArr \<Longrightarrow>
     compareArrays oldArr newArr basePath' mode ds2 = ds2"
proof (induction oldVal newVal p mode ds0 and oldObj newObj basePath mode ds1
       and oldArr newArr basePath' mode ds2
       rule: compareValues_compareObjects_compareArrays.induct)
  case (1 oldVal newVal p mode ds0)
  show ?case
  proof (cases oldVal)
    case (JArray xs)
    with 1(3) have n: "newVal = JArray xs" by simp
    from 1(4) JArray have "list_all nanFree xs" by simp
    with 1(1) [OF _ JArray n refl] JArray n show ?thesis
      by (simp add: compareValues.simps)
  next
    case (JObject kvs)
    with 1(3) have n: "newVal = JObject kvs" by simp
    from 1(4) JObject have "list_all (\<lambda>kv. nanFree (snd kv)) kvs" by simp
    with 1(2) [OF _ JObject n refl] JObject n show ?thesis
      by (simp add: compareValues.simps)
  qed (use 1(3,4) in \<open>simp_all add: compareValues_prim isEqual_prim_refl\<close>)
next
  case (2 oldObj newObj basePath mode ds0)
  from 2(2) have e: "newObj = oldObj" by simp
  have step: "\<And>key ds. key \<in> set (newSet (map fst oldObj @ map fst oldObj)) \<Longrightarrow>
     (case map_of oldObj key of
        Some ov \<Rightarrow> (case map_of oldObj key of
                     None \<Rightarrow> ds @ [removedItem (joinPath basePath key) ov]
                   | Some nv \<Rightarrow> compareValues ov nv (joinPath basePath key) mode ds)
      | None \<Rightarrow> (case map_of oldObj key of
                     Some nv \<Rightarrow> ds @ [addedItem (joinPath basePath key) nv]
                   | None \<Rightarrow> ds)) = ds"
  proof -
    fix key ds
    assume k: "key \<in> set (newSet (map fst oldObj @ map fst oldObj))"
    show "?thesis key ds"
    proof (cases "map_of oldObj key")
      case None
      then show ?thesis by simp
    next
      case (Some v)
      then have "(key, v) \<in> set oldObj" by (rule map_of_SomeD)
      with 2(3) have nf: "nanFree v" by (auto simp: list_all_iff)
      from 2(1) [unfolded e, OF refl refl refl refl k refl Some Some refl nf] Some
      show ?thesis by simp
    qed
  qed
  show ?case unfolding e
    by (simp add: compareObjects.simps Let_def checkKeyOrder_same step fold_fixed)
next
  case (3 oldArr newArr basePath mode ds0)
  from 3(2) have e: "newArr = oldArr" by simp
  have step: "\<And>i ds. i \<in> set [0..<length oldArr] \<Longrightarrow>
     compareValues (oldArr ! i) (oldArr ! i) (basePath @ ''['' @ showNat i @ '']'') mode ds = ds"
  proof -
    fix i ds
    assume i: "i \<in> set [0..<length oldArr]"
    then have nf: "nanFree (oldArr ! i)" using 3(3) by (auto simp: list_all_length)
    from i have lt: "i < length oldArr" by simp
    show "?thesis i ds"
      by (rule 3(1) [unfolded e, OF refl _ refl refl refl]) (use lt nf in simp_all)
  qed
  show ?case unfolding e
    by (simp add: compareArrays.simps Let_def, rule fold_fixed) (use step in simp)
qed

lemma noUnchanged_snoc:
  "noUnchanged (ds @ [d]) = (noUnchanged ds \<and> type d \<noteq> unchanged)"
  by (auto simp: noUnchanged_def)

lemma checkKeyOrder_noUnchanged:
  "noUnchanged ds \<Longrightarrow> noUnchanged (checkKeyOrder oldKeys newKeys p ds)"
  unfolding checkKeyOrder_def Let_def
  by (rule fold_preserves) (auto simp: noUnchanged_snoc)

lemma compare_noUnchanged:
  "noUnchanged ds0 \<Longrightarrow> noUnchanged (compareValues oldVal newVal p mode ds0)"
  "noUnchanged ds1 \<Longrightarrow> noUnchanged (compareObjects oldObj newObj basePath mode ds1)"
  "noUnchanged ds2 \<Longrightarrow> noUnchanged (compareArrays oldArr newArr basePath' mode ds2)"
proof (induction oldVal newVal p mode ds0 and oldObj newObj basePath mode ds1
       and oldArr newArr basePath' mode ds2
       rule: compareValues_compareObjects_compareArrays.induct)
  case (1 oldVal newVal p mode ds0)
  then show ?case
    by (auto simp: compareValues.simps noUnchanged_snoc modifiedItem_def
             split: JsonValue.splits)
next
  case (2 oldObj newObj basePath mode ds0)
  let ?ds1 = "if mode = strict
              then checkKeyOrder (map fst oldObj) (map fst newObj) basePath ds0 else ds0"
  have start: "noUnchanged ?ds1"
    using 2(2) by (simp add: checkKeyOrder_noUnchanged)
  show ?case
    unfolding compareObjects.simps [of oldObj newObj basePath mode ds0] Let_def
  proof (rule fold_preserves [where I = noUnchanged, OF _ start])
    fix key ds
    assume k: "key \<in> set (newSet (map fst oldObj @ map fst newObj))" and ok: "noUnchanged ds"
    show "noUnchanged (case map_of oldObj key of
              None \<Rightarrow> (case map_of newObj key of None \<Rightarrow> ds
                       | Some nv \<Rightarrow> ds @ [addedItem (joinPath basePath key) nv])
            | Some ov \<Rightarrow> (case map_of newObj key of
                         None \<Rightarrow> ds @ [removedItem (joinPath basePath key) ov]
                       | Some nv \<Rightarrow> compareValues ov nv (joinPath basePath key) mode ds))"
      using ok 2(1) [OF refl refl refl refl k refl _ _ ok]
      by (auto simp: noUnchanged_snoc addedItem_def removedItem_def split: option.splits)
  qed
next
  case (3 oldArr newArr basePath mode ds0)
  show ?case
    unfolding compareArrays.simps [of oldArr newArr basePath mode ds0] Let_def
  proof (rule fold_preserves [where I = noUnchanged, OF _ 3(2)])
    fix i ds
    assume i: "i \<in> set [0..<max (length oldArr) (length newArr)]" and ok: "noUnchanged ds"
    show "noUnchanged (if i < length oldArr \<and> \<not> i < length newArr
            then ds @ [removedItem (basePath @ ''['' @ showNat i @ '']'') (oldArr ! i)]
            else if \<not> i < length oldArr \<and> i < length newArr
            then ds @ [addedItem (basePath @ ''['' @ showNat i @ '']'') (newArr ! i)]
            else if i < length oldArr \<and> i < length newArr
            then compareValues (oldArr ! i) (newArr ! i) (basePath @ ''['' @ showNat i @ '']'') mode ds
            else ds)"
      using ok 3(1) [OF refl i refl refl refl _ _ _ ok]
      by (auto simp: noUnchanged_snoc addedItem_def removedItem_def)
  qed
qed

subsection \<open>The claims about the differ\<close>

text \<open>
  Claim C5 (strict-mode order sensitivity). For \<open>a = {x:1, y:2}\<close> and
  \<open>b = {y:2, x:1}\<close>, \<open>compareJson(a, b, 'strict')\<close> has \<open>isEqual === false\<close> and
  its diff list holds an item of type \<open>order_changed\<close>; the list is exactly the two
  order changes of \<open>x\<close> and \<open>y\<close>.
\<close>

theorem strict_order_sensitivity:
  "compareJson objXY objYX strict =
     \<lparr>isEqualResult = False,
      diffs = [\<lparr>path = ''x'', type = order_changed, oldValue = None, newValue = None,
                oldIndex = Some 0, newIndex = Some 1\<rparr>,
               \<lparr>path = ''y'', type = order_changed, oldValue = None, newValue = None,
                oldIndex = Some 1, newIndex = Some 0\<rparr>]\<rparr>
   \<and> isEqualResult (compareJson objXY objYX strict) = False
   \<and> list_ex (\<lambda>d. type d = order_changed) (diffs (compareJson objXY objYX strict))"
  by code_simp

text \<open>
  Claim C6 (loose-mode order invariance). If the properties of \<open>b\<close> are a permutation
  of the properties of \<open>a\<close> (same keys, the same value at each key, any order) then
  \<open>compareJson(a, b, 'loose')\<close> reports equality with no diff item. The values are JSON
  values, hence free of \<open>NaN\<close>.
\<close>

theorem loose_order_invariance:
  assumes "distinct (map fst a)" and "mset b = mset a"
    and "list_all (\<lambda>kv. nanFree (snd kv)) a"
  shows "compareJson (JObject a) (JObject b) loose = \<lparr>isEqualResult = True, diffs = []\<rparr>"
proof -
  from assms(2) have "mset (map fst b) = mset (map fst a)" by simp
  with assms(1) have db: "distinct (map fst b)"
    by (metis mset_eq_imp_distinct_iff)
  from assms(2) have "set b = set a" by (rule mset_eq_setD)
  with assms(1) db have m: "map_of b = map_of a" by (simp add: map_of_inject_set)
  have step: "\<And>key ds.
     (case map_of a key of
        None \<Rightarrow> (case map_of b key of None \<Rightarrow> ds
                 | Some nv \<Rightarrow> ds @ [addedItem (joinPath [] key) nv])
      | Some ov \<Rightarrow> (case map_of b key of
                     None \<Rightarrow> ds @ [removedItem (joinPath [] key) ov]
                   | Some nv \<Rightarrow> compareValues ov nv (joinPath [] key) loose ds)) = ds"
  proof -
    fix key ds
    show "?thesis key ds"
    proof (cases "map_of a key")
      case None
      with m show ?thesis by simp
    next
      case (Some v)
      then have "(key, v) \<in> set a" by (rule map_of_SomeD)
      with assms(3) have "nanFree v" by (auto simp: list_all_iff)
      with Some m show ?thesis by (simp add: compare_same(1))
    qed
  qed
  have "compareObjects a b [] loose [] = []"
    by (simp add: compareObjects.simps Let_def, rule fold_fixed) (use step in simp)
  then show ?thesis
    by (simp add: compareJson_def compareValues.simps)
qed

theorem loose_order_invariance_witness:
  "distinct (map fst [(''name'', JString ''n''), (''age'', JNumber (Finite 25))])
   \<and> mset [(''age'', JNumber (Finite 25)), (''name'', JString ''n'')]
       = mset [(''name'', JString ''n''), (''age'', JNumber (Finite 25))]
   \<and> compareJson (JObject [(''name'', JString ''n''), (''age'', JNumber (Finite 25))])
                 (JObject [(''age'', JNumber (Finite 25)), (''name'', JString ''n'')]) loose
       = \<lparr>isEqualResult = True, diffs = []\<rparr>"
proof -
  have d: "distinct (map fst [(''name'', JString ''n''), (''age'', JNumber (Finite 25))])"
    by simp
  have p: "mset [(''age'', JNumber (Finite 25)), (''name'', JString ''n'')]
       = mset [(''name'', JString ''n''), (''age'', JNumber (Finite 25))]"
    by (simp add: add.commute)
  have n: "list_all (\<lambda>kv. nanFree (snd kv)) [(''name'', JString ''n''), (''age'', JNumber (Finite 25))]"
    by simp
  from loose_order_invariance [OF d p n] d p show ?thesis by blast
qed

text \<open>
  Claim C7 (type mismatch ends the comparison). When the two values at a path have
  different type tags, \<open>compareValues\<close> appends exactly one \<open>modified\<close> item at that
  path (\<open>(root)\<close> for the empty path) carrying both raw values, and nothing else:
  whatever the two values contain, no item is produced for their descendants.
\<close>

theorem type_mismatch_terminates:
  assumes "getValueType oldVal \<noteq> getValueType newVal"
  shows "compareValues oldVal newVal p mode ds =
           ds @ [\<lparr>path = (if p \<noteq> [] then p else ''(root)''), type = modified,
                   oldValue = Some oldVal, newValue = Some newVal,
                   oldIndex = None, newIndex = None\<rparr>]
       \<and> diffs (compareJson oldVal newVal mode) =
           [\<lparr>path = ''(root)'', type = modified,
             oldValue = Some oldVal, newValue = Some newVal,
             oldIndex = None, newIndex = None\<rparr>]"
  using assms
  by (simp add: compareJson_def compareValues.simps modifiedItem_def rootPath_def)

theorem type_mismatch_terminates_witness:
  "getValueType (JObject [(''a'', JObject [(''b'', JNull)])]) \<noteq> getValueType (JArray [JArray [JNull]])
   \<and> compareValues (JObject [(''a'', JObject [(''b'', JNull)])]) (JArray [JArray [JNull]]) ''k'' strict [] =
       [\<lparr>path = ''k'', type = modified,
         oldValue = Some (JObject [(''a'', JObject [(''b'', JNull)])]),
         newValue = Some (JArray [JArray [JNull]]),
         oldIndex = None, newIndex = None\<rparr>]"
  using type_mismatch_terminates
    [of "JObject [(''a'', JObject [(''b'', JNull)])]" "JArray [JArray [JNull]]" "''k''" strict "[]"]
  by simp

text \<open>
  Claim C9 (reflexivity). For every JSON value \<open>a\<close> and both modes,
  \<open>compareJson(a, a, mode)\<close> returns \<open>isEqual === true\<close> with an empty diff list.
\<close>

theorem differ_reflexive:
  assumes "nanFree a"
  shows "compareJson a a mode = \<lparr>isEqualResult = True, diffs = []\<rparr>"
  using assms by (simp add: compareJson_def compare_same(1))

theorem differ_reflexive_witness:
  "nanFree sampleDoc \<and> compareJson sampleDoc sampleDoc strict = \<lparr>isEqualResult = True, diffs = []\<rparr>
   \<and> compareJson sampleDoc sampleDoc loose = \<lparr>isEqualResult = True, diffs = []\<rparr>"
proof -
  have h: "nanFree sampleDoc" by (simp add: sampleDoc_def)
  from differ_reflexive [OF h, of strict] differ_reflexive [OF h, of loose] h
  show ?thesis by simp
qed

text \<open>
  Claim C10 (the type \<open>unchanged\<close> is never emitted). For every pair of values and
  either mode, every item of the list \<open>compareJson\<close> returns has type \<open>added\<close>,
  \<open>removed\<close>, \<open>modified\<close> or \<open>order_changed\<close>.
\<close>

theorem unchanged_never_emitted:
  "\<forall>d \<in> set (diffs (compareJson a b mode)).
      type d \<in> {added, removed, modified, order_changed} \<and> type d \<noteq> unchanged"
proof -
  have "noUnchanged (compareValues a b [] mode [])"
    by (rule compare_noUnchanged(1)) (simp add: noUnchanged_def)
  then have "\<forall>d \<in> set (diffs (compareJson a b mode)). type d \<noteq> unchanged"
    by (simp add: compareJson_def Let_def noUnchanged_def list_all_iff)
  moreover have "\<And>t. t \<noteq> unchanged \<Longrightarrow> t \<in> {added, removed, modified, order_changed}"
    by (case_tac t) auto
  ultimately show ?thesis by blast
qed

theorem unchanged_never_emitted_witness:
  "addedItem ''b'' JNull \<in> set (diffs (compareJson (JObject [(''a'', JNull)]) (JObject [(''a'', JNull), (''b'', JNull)]) strict))
   \<and> type (addedItem ''b'' JNull) \<noteq> unchanged"
proof -
  have m: "addedItem ''b'' JNull \<in> set (diffs (compareJson (JObject [(''a'', JNull)]) (JObject [(''a'', JNull), (''b'', JNull)]) strict))"
    by code_simp
  with unchanged_never_emitted [of "JObject [(''a'', JNull)]" "JObject [(''a'', JNull), (''b'', JNull)]" strict]
  show ?thesis by blast
qed

section \<open>Properties of the PHP array parser\<close>

text \<open>
  Claim C1 (the sequential key counter). The claim has every element written without
  \<open>=>\<close> take the next value of a counter that advances on every such element, so that
  the un-keyed elements after an explicit key get distinct successive keys. The counter
  of \<open>parseArray\<close> advances only while \<open>isIndexedArray\<close> holds, that is until the
  first \<open>=>\<close>: in \<open>['a', 5 => 'x', 'b', 'c']\<close> both \<open>'b'\<close> and \<open>'c'\<close> are stored at
  key 1 and \<open>'b'\<close> is lost. The other example of the claim holds: \<open>[5 => 'a', 'b']\<close>
  stores \<open>'b'\<close> at key 0.
\<close>

theorem parseArray_counter_stops_after_first_key:
  "smartParsePHPArray ''['a', 5 => 'x', 'b', 'c']''
     = Inr (PObject [(''0'', PString ''a''), (''1'', PString ''c''), (''5'', PString ''x'')])
   \<and> smartParsePHPArray ''[5 => 'a', 'b']''
     = Inr (PObject [(''0'', PString ''b''), (''5'', PString ''a'')])"
  by code_simp

text \<open>
  Claim C4 (\<open>INF\<close>, \<open>-INF\<close>, \<open>NAN\<close> in the degraded parser). The claim has the token
  \<open>-INF\<close> rewritten to the quoted string \<open>"-Infinity"\<close>. \<open>replacePhpValues\<close> rewrites
  \<open>INF\<close> first, so the input \<open>-INF\<close> becomes a minus sign followed by the quoted string
  \<open>"Infinity"\<close>, and the later replacement of \<open>-INF\<close> finds nothing.
\<close>

theorem replacePhpValues_negative_INF:
  \<open>replacePhpValues ''-INF'' = ''-"Infinity"''
   \<and> replacePhpValues ''["a": -INF]'' = ''["a": -"Infinity"]''\<close>
  by code_simp


text \<open>
  Claim C3 (the round trip through \<open>convertToPHP\<close> and \<open>parsePHPArray\<close>). Let \<open>v\<close> be a
  value (\<open>rtValue\<close>)
  \<^item> whose numbers are printed without an exponent, that is are zero or of a magnitude
    from \<open>10^-6\<close> up to, but not including, \<open>10^21\<close>, and are not the negative zero;
  \<^item> whose strings and quoted keys hold no backslash followed by one of the letters
    \<open>n\<close>, \<open>r\<close>, \<open>t\<close>, and neither \<open><?\<close> nor \<open>?>\<close>;
  \<^item> whose maps list their keys in the order in which JavaScript enumerates them and,
    unless their keys are \<open>0, ..., N-1\<close>, have no key \<open>__proto__\<close> and have their keys
    made of digits written without a leading zero and below \<open>2^53\<close>.

  Then parsing the text that \<open>convertToPHP\<close> writes for \<open>v\<close> succeeds in the token parser,
  whatever the fallback \<open>jsonParse\<close> would do, and returns \<open>v\<close> with every map whose keys
  are \<open>0, ..., N-1\<close>, the empty map among them, replaced by the list of its values
  (\<open>collapse\<close>); it returns \<open>v\<close> itself when \<open>v\<close> holds no such map (\<open>keyedMaps\<close>).
\<close>

theorem convertToPHP_round_trip:
  assumes "rtValue v"
  shows "parsePHPArray jsonParse (convertToPHP v 0) = Inr (collapse v)
         \<and> (keyedMaps v \<longrightarrow> parsePHPArray jsonParse (convertToPHP v 0) = Inr v)"
  using parsePHPArray_convertToPHP [OF assms, of jsonParse] keyedMaps_collapse [of v]
  by simp

theorem convertToPHP_round_trip_witness:
  "rtValue sampleArray \<and> keyedMaps sampleArray
   \<and> parsePHPArray (\<lambda>_. Inl ()) (convertToPHP sampleArray 0) = Inr sampleArray"
proof -
  have h: "rtValue sampleArray" by code_simp
  have k: "keyedMaps sampleArray" by code_simp
  from convertToPHP_round_trip [OF h, of "\<lambda>_. Inl ()"] k
  have "parsePHPArray (\<lambda>_. Inl ()) (convertToPHP sampleArray 0) = Inr sampleArray" by blast
  with h k show ?thesis by simp
qed

text \<open>
  Outside these values the round trip changes the value, with no \<open>NaN\<close>, no infinity
  and no gap among the keys in sight. A backslash followed by the letter \<open>n\<close> comes back
  as a backslash followed by a line feed, and likewise for \<open>r\<close> and \<open>t\<close>:
  \<open>escapeString\<close> doubles the backslash, and \<open>unescapeString\<close> replaces the pair
  backslash, \<open>n\<close> before it replaces the doubled backslash. The characters \<open><?\<close> and
  \<open>?>\<close> inside a string are removed by \<open>cleanInput\<close> as PHP tags. The empty map and
  the map with the keys \<open>0\<close> and \<open>1\<close> come back as lists; the key \<open>007\<close>, written
  without quotes, comes back as \<open>7\<close>; the key \<open>__proto__\<close> is assigned to the accessor
  of \<open>Object.prototype\<close> and is lost; the negative zero is printed as \<open>0\<close> and comes
  back as the positive zero.
\<close>

theorem convertToPHP_round_trip_fails:
  "parsePHPArray (\<lambda>_. Inl ()) (convertToPHP (PString [bslash, CHR ''n'']) 0)
     = Inr (PString [bslash, newline])
   \<and> parsePHPArray (\<lambda>_. Inl ()) (convertToPHP (PString [bslash, CHR ''r'']) 0)
     = Inr (PString [bslash, creturn])
   \<and> parsePHPArray (\<lambda>_. Inl ()) (convertToPHP (PString [bslash, CHR ''t'']) 0)
     = Inr (PString [bslash, tabchar])
   \<and> parsePHPArray (\<lambda>_. Inl ()) (convertToPHP (PString ''a?>b'') 0) = Inr (PString ''ab'')
   \<and> parsePHPArray (\<lambda>_. Inl ()) (convertToPHP (PString ''a<?b'') 0) = Inr (PString ''ab'')
   \<and> parsePHPArray (\<lambda>_. Inl ()) (convertToPHP (PObject []) 0) = Inr (PArray [])
   \<and> parsePHPArray (\<lambda>_. Inl ())
        (convertToPHP (PObject [(''0'', PString ''a''), (''1'', PString ''b'')]) 0)
     = Inr (PArray [PString ''a'', PString ''b''])
   \<and> parsePHPArray (\<lambda>_. Inl ()) (convertToPHP (PObject [(''007'', PNull)]) 0)
     = Inr (PObject [(''7'', PNull)])
   \<and> parsePHPArray (\<lambda>_. Inl ()) (convertToPHP (PObject [(''__proto__'', PNumber (Finite 1))]) 0)
     = Inr (PObject [])
   \<and> parsePHPArray (\<lambda>_. Inl ()) (convertToPHP (PNumber NegZero) 0) = Inr (PNumber (Finite 0))"
  by code_simp
section \<open>Properties of the DDL parser\<close>

lemma parseStatement_fatal:
  assumes "rxTest rxIsCreateTable stmt" and "parseCreateTable stmt = Inl e"
  shows "parseStatement stmt st = Inl e"
  using assms by (simp add: parseStatement_def)

lemma parseStatements_fatal:
  assumes "stmt \<in> set stmts" and "rxTest rxIsCreateTable stmt"
    and "parseCreateTable stmt = Inl e"
  shows "\<exists>e'. parseStatements stmts st = Inl e'"
  using assms(1)
proof (induction stmts arbitrary: st)
  case Nil
  then show ?case by simp
next
  case (Cons s stmts)
  show ?case
  proof (cases "parseStatement s st")
    case (Inl e')
    then show ?thesis by simp
  next
    case (Inr st')
    with parseStatement_fatal [OF assms(2,3), of st] have "s \<noteq> stmt" by auto
    with Cons.prems have "stmt \<in> set stmts" by simp
    from Cons.IH [OF this, of st'] Inr show ?thesis by simp
  qed
qed

lemma parseCreateTable_fails_iff:
  "(\<exists>e. parseCreateTable stmt = Inl e)
     \<longleftrightarrow> (rxExec rxTableName stmt = None \<or> rxExec rxTableContent stmt = None)"
  by (auto simp: parseCreateTable_def Let_def split: option.splits prod.splits)

text \<open>
  Claim C8 (a malformed \<open>CREATE TABLE\<close> is fatal). If some statement of the input
  matches \<open>CREATE TABLE\<close> and its table name or its parenthesized body cannot be
  extracted, \<open>parseDDL\<close> throws: the call returns an error and no result, whatever the
  earlier statements held.
\<close>

theorem create_table_fatal:
  assumes "stmt \<in> set (splitStatements ddl)"
    and "rxTest rxIsCreateTable stmt"
    and "rxExec rxTableName stmt = None \<or> rxExec rxTableContent stmt = None"
  shows "\<exists>e. parseDDL ddl = Inl e"
proof -
  from assms(3) obtain e where "parseCreateTable stmt = Inl e"
    using parseCreateTable_fails_iff [of stmt] by blast
  from parseStatements_fatal [OF assms(1,2) this, of "([], [])"]
  show ?thesis by (auto simp: parseDDL_def)
qed

theorem create_table_fatal_witness:
  "''CREATE TABLE t2'' \<in> set (splitStatements ''CREATE TABLE t1(id int); CREATE TABLE t2'')
   \<and> rxTest rxIsCreateTable ''CREATE TABLE t2''
   \<and> rxExec rxTableContent ''CREATE TABLE t2'' = None
   \<and> parseDDL ''CREATE TABLE t1(id int); CREATE TABLE t2'' = Inl UnparsableTableBody"
proof -
  have a: "''CREATE TABLE t2'' \<in> set (splitStatements ''CREATE TABLE t1(id int); CREATE TABLE t2'')"
    by code_simp
  have b: "rxTest rxIsCreateTable ''CREATE TABLE t2''" by code_simp
  have c: "rxExec rxTableContent ''CREATE TABLE t2'' = None" by code_simp
  have d: "parseDDL ''CREATE TABLE t1(id int); CREATE TABLE t2'' \<noteq> Inl UnrecognizedCreateTable"
    by code_simp
  from create_table_fatal [OF a b disjI2 [OF c]] obtain e
    where "parseDDL ''CREATE TABLE t1(id int); CREATE TABLE t2'' = Inl e" by blast
  with d have "parseDDL ''CREATE TABLE t1(id int); CREATE TABLE t2'' = Inl UnparsableTableBody"
    by (cases e) auto
  with a b c show ?thesis by blast
qed

text \<open>
  Claim C2 (\<open>CREATE INDEX\<close> in its four forms). The claim has every statement
  \<open>CREATE [UNIQUE|FULLTEXT|SPATIAL] INDEX ... ON ...\<close> parsed as a standalone index.
  \<open>parseCreateIndex\<close> does parse the four forms, but the test by which \<open>parseDDL\<close>
  reaches it is \<open>CREATE\s+(UNIQUE\s+)?INDEX\<close>: a \<open>FULLTEXT\<close> or \<open>SPATIAL\<close>
  statement fails the test and leaves no trace in the result.
\<close>

theorem fulltext_index_dropped:
  "parseDDL ''CREATE FULLTEXT INDEX ft ON posts (body);'' = Inr \<lparr>tables = [], standaloneIndexes = []\<rparr>
   \<and> parseCreateIndex ''CREATE FULLTEXT INDEX ft ON posts (body)''
       = Some \<lparr>si_tableName = ''posts'',
               si_index = \<lparr>index_type = FULLTEXT, index_name = ''ft'', columns = [''body''],
                           missingColumns = None\<rparr>\<rparr>
   \<and> rxTest rxIsCreateIndex ''CREATE FULLTEXT INDEX ft ON posts (body)'' = False
   \<and> parseDDL ''CREATE SPATIAL INDEX sp ON places (loc);''
       = Inr \<lparr>tables = [], standaloneIndexes = []\<rparr>"
  by code_simp

end
